theory Spec2Isabelle
  imports Main "HOL-Library.Char_ord" "HOL-Library.List_Lexorder" "HOL-Library.AList"
begin

section \<open>The filesystem the program reads\<close>

text \<open>
  \<^verbatim>\<open>firmware_diff.py\<close> reads two directory trees through \<^verbatim>\<open>pathlib\<close>. The
  filesystem is a finite tree of nodes. A regular file carries its bytes, a directory its
  entries in the order \<^verbatim>\<open>iterdir\<close> yields them; both carry a flag saying whether the
  process may read them (a directory that may be read may also be searched). A symbolic
  link carries its target, a path from the root of the tree; the target may be missing,
  may be a file, a directory, or an ancestor of the link itself (a cycle). \<open>Special\<close>
  stands for device files, sockets and FIFOs.

  A \<open>path\<close> is the list of the components of a \<^verbatim>\<open>Path\<close> object, read from the root
  of the modelled tree, which stands for the working directory; a component \<^verbatim>\<open>..\<close> is
  a name like any other and is found in no directory. Bytes are 8-bit characters, so
  \<open>bytes\<close> and \<open>string\<close> are both character lists; strings are ordered by code, as
  Python orders \<^verbatim>\<open>str\<close>.

  The tree is the same during a run: nothing else writes to it. The recursion limit of
  the interpreter is not modelled.
\<close>

type_synonym bytes = "char list"

type_synonym path = "string list"

datatype error = FileNotFoundError | NotADirectoryError | IsADirectoryError
  | PermissionError | OSError | ValueError | KeyError | IndexError

datatype node =
    File bool bytes
  | Dir bool "(string \<times> node) list"
  | Symlink path
  | Special

text \<open>
  Path resolution as the operating system does it: component by component, following
  every symbolic link met on the way, and giving up (\<^verbatim>\<open>ELOOP\<close>) after
  \<open>MAXSYMLINKS\<close> links. Looking a name up in a directory takes its first entry.
\<close>

definition MAXSYMLINKS :: nat where
  "MAXSYMLINKS = 40"

fun link_target :: "node \<Rightarrow> path option" where
  "link_target (Symlink t) = Some t"
| "link_target _ = None"

fun resolve :: "nat \<Rightarrow> node \<Rightarrow> node \<Rightarrow> path \<Rightarrow> node option" where
  "resolve fuel root cur [] = Some cur"
| "resolve fuel root cur (c # cs) =
     (case cur of
        Dir r es \<Rightarrow>
          (case map_of es c of
             None \<Rightarrow> None
           | Some child \<Rightarrow>
               (case link_target child of
                  None \<Rightarrow> resolve fuel root child cs
                | Some t \<Rightarrow>
                    (case fuel of
                       0 \<Rightarrow> None
                     | Suc fuel' \<Rightarrow> resolve fuel' root root (t @ cs))))
      | _ \<Rightarrow> None)"

text \<open>
  \<open>stat\<close> follows a link in the last component, \<open>lstat\<close> does not. The \<^verbatim>\<open>pathlib\<close>
  tests are built on them: \<^verbatim>\<open>is_symlink\<close> on \<open>lstat\<close>; \<^verbatim>\<open>is_file\<close> and
  \<^verbatim>\<open>is_dir\<close> on \<open>stat\<close>, so both answer for the target of a link, and both answer
  \<open>False\<close> where the path does not resolve.
\<close>

definition stat :: "node \<Rightarrow> path \<Rightarrow> node option" where
  "stat fs p = resolve MAXSYMLINKS fs fs p"

definition lstat :: "node \<Rightarrow> path \<Rightarrow> node option" where
  "lstat fs p =
     (if p = [] then Some fs
      else (case stat fs (butlast p) of
              Some (Dir r es) \<Rightarrow> map_of es (last p)
            | _ \<Rightarrow> None))"

definition is_symlink :: "node \<Rightarrow> path \<Rightarrow> bool" where
  "is_symlink fs p = (case lstat fs p of Some (Symlink t) \<Rightarrow> True | _ \<Rightarrow> False)"

definition is_file :: "node \<Rightarrow> path \<Rightarrow> bool" where
  "is_file fs p = (case stat fs p of Some (File r bs) \<Rightarrow> True | _ \<Rightarrow> False)"

definition is_dir :: "node \<Rightarrow> path \<Rightarrow> bool" where
  "is_dir fs p = (case stat fs p of Some (Dir r es) \<Rightarrow> True | _ \<Rightarrow> False)"

definition iterdir :: "node \<Rightarrow> path \<Rightarrow> error + path list" where
  "iterdir fs p =
     (case stat fs p of
        None \<Rightarrow> Inl FileNotFoundError
      | Some (Dir r es) \<Rightarrow>
          if r then Inr (map (\<lambda>(name, child). p @ [name]) es) else Inl PermissionError
      | Some (Symlink t) \<Rightarrow> Inl FileNotFoundError
      | Some _ \<Rightarrow> Inl NotADirectoryError)"

definition open_rb :: "node \<Rightarrow> path \<Rightarrow> error + bytes" where
  "open_rb fs p =
     (case stat fs p of
        None \<Rightarrow> Inl FileNotFoundError
      | Some (File r bs) \<Rightarrow> if r then Inr bs else Inl PermissionError
      | Some (Dir r es) \<Rightarrow> Inl IsADirectoryError
      | Some (Symlink t) \<Rightarrow> Inl FileNotFoundError
      | Some Special \<Rightarrow> Inl OSError)"

section \<open>The tree walker\<close>

text \<open>
  The size of the node a path resolves to bounds the recursion of \<open>walk\<close>: an element
  that is not a symbolic link resolves to a child of the directory listed, which is
  smaller than the directory.
\<close>

definition node_size :: "node \<Rightarrow> path \<Rightarrow> nat" where
  "node_size fs p = (case stat fs p of None \<Rightarrow> 0 | Some n \<Rightarrow> size n)"

definition walk_weight :: "node \<Rightarrow> path \<Rightarrow> nat" where
  "walk_weight fs p = (if is_symlink fs p then 0 else node_size fs p)"

fun walk_measure :: "node \<times> path + node \<times> path list \<times> path list \<Rightarrow> nat \<times> nat" where
  "walk_measure (Inl (fs, p)) = (2 * node_size fs p, 0)"
| "walk_measure (Inr (fs, els, acc)) =
     (2 * foldr max (map (walk_weight fs) els) 0 + 1, length els)"

lemma resolve_child:
  "resolve fuel root cur cs = Some (Dir r es) \<Longrightarrow> map_of es n = Some c \<Longrightarrow>
   link_target c = None \<Longrightarrow> resolve fuel root cur (cs @ [n]) = Some c"
proof (induction fuel root cur cs rule: resolve.induct)
  case (1 fuel root cur)
  then show ?case by simp
next
  case (2 fuel root cur c' cs)
  from "2.prems"(1) obtain r' es' child where cur: "cur = Dir r' es'"
    and child: "map_of es' c' = Some child"
    by (cases cur; cases "map_of (case cur of Dir r es \<Rightarrow> es | _ \<Rightarrow> []) c'") simp_all
  show ?case
  proof (cases "link_target child")
    case None
    with "2.prems" cur child have "resolve fuel root child cs = Some (Dir r es)"
      by simp
    from "2.IH"(1) [OF cur child None this "2.prems"(2,3)] None cur child
    show ?thesis by simp
  next
    case (Some t)
    with "2.prems" cur child obtain fuel' where fuel: "fuel = Suc fuel'"
      and "resolve fuel' root root (t @ cs) = Some (Dir r es)"
      by (cases fuel) simp_all
    from "2.IH"(2) [OF cur child Some fuel this(2) "2.prems"(2,3)] Some cur child fuel
    show ?thesis by simp
  qed
qed

lemma child_size:
  assumes "map_of es n = Some c"
  shows "size c < size (Dir r es)"
proof -
  from assms have "(n, c) \<in> set es" by (rule map_of_SomeD)
  then have "size_prod (\<lambda>_. 0) size (n, c) \<le> size_list (size_prod (\<lambda>_. 0) size) es"
    by (simp add: size_list_estimation')
  then show ?thesis by simp
qed

lemma iterdir_Inr:
  "iterdir fs p = Inr els \<longleftrightarrow>
     (\<exists>es. stat fs p = Some (Dir True es) \<and> els = map (\<lambda>(name, child). p @ [name]) es)"
  by (auto simp: iterdir_def split: option.splits node.splits)

lemma stat_element:
  assumes "iterdir fs p = Inr els" and "e \<in> set els" and "\<not> is_symlink fs e"
  shows "\<exists>es n c. stat fs p = Some (Dir True es) \<and> e = p @ [n] \<and> map_of es n = Some c
           \<and> link_target c = None \<and> lstat fs e = Some c \<and> stat fs e = Some c"
proof -
  from assms(1) obtain es where p: "stat fs p = Some (Dir True es)"
    and els: "els = map (\<lambda>(name, child). p @ [name]) es"
    by (auto simp: iterdir_Inr)
  from assms(2) els obtain n c0 where nc: "(n, c0) \<in> set es" and e: "e = p @ [n]"
    by auto
  from nc obtain c where c: "map_of es n = Some c"
    by (metis weak_map_of_SomeI)
  have l: "lstat fs e = Some c"
    using p c e by (simp add: lstat_def)
  with assms(3) have lt: "link_target c = None"
    by (cases c) (simp_all add: is_symlink_def)
  have "stat fs e = Some c"
    using resolve_child [OF p [unfolded stat_def] c lt] e by (simp add: stat_def)
  with p e c lt l show ?thesis by blast
qed

lemma element_smaller:
  assumes "iterdir fs p = Inr els" and "e \<in> set els"
  shows "walk_weight fs e < node_size fs p"
proof (cases "is_symlink fs e")
  case True
  from assms(1) obtain es where "stat fs p = Some (Dir True es)"
    by (auto simp: iterdir_Inr)
  with True show ?thesis by (simp add: walk_weight_def node_size_def)
next
  case False
  from stat_element [OF assms False] obtain es n c where
    "stat fs p = Some (Dir True es)" "map_of es n = Some c" "stat fs e = Some c"
    by blast
  with False child_size [of es n c True] show ?thesis
    by (simp add: walk_weight_def node_size_def)
qed

lemma foldr_max_less:
  "(\<And>x. x \<in> set xs \<Longrightarrow> f x < (b::nat)) \<Longrightarrow> 0 < b \<Longrightarrow> foldr max (map f xs) 0 < b"
  by (induction xs) auto

lemma walk_descends:
  assumes "iterdir fs dir_path = Inr elements"
  shows "(Inr (fs, elements, acc), Inl (fs, dir_path))
           \<in> inv_image (less_than <*lex*> less_than) walk_measure"
proof -
  from assms obtain es where "stat fs dir_path = Some (Dir True es)"
    by (auto simp: iterdir_Inr)
  then have "0 < node_size fs dir_path"
    by (simp add: node_size_def)
  with assms have "foldr max (map (walk_weight fs) elements) 0 < node_size fs dir_path"
    by (intro foldr_max_less element_smaller)
  then show ?thesis by simp
qed

text \<open>
  \<^verbatim>\<open>walk(dir_path)\<close>: the loop over \<^verbatim>\<open>dir_path.iterdir()\<close> is \<open>walk_loop\<close>, with the
  elements still to visit and \<^verbatim>\<open>file_list\<close> as built so far. An exception of
  \<^verbatim>\<open>iterdir\<close> (of the directory itself or, in the recursion, of a subdirectory) ends
  the walk with that error.
\<close>

function (sequential, domintros) walk :: "node \<Rightarrow> path \<Rightarrow> error + path list"
  and walk_loop :: "node \<Rightarrow> path list \<Rightarrow> path list \<Rightarrow> error + path list" where
  "walk fs dir_path =
     (case iterdir fs dir_path of
        Inl e \<Rightarrow> Inl e
      | Inr elements \<Rightarrow> walk_loop fs elements [])"
| "walk_loop fs [] file_list = Inr file_list"
| "walk_loop fs (element # rest) file_list =
     (if is_symlink fs element then walk_loop fs rest file_list
      else
        (let file_list1 = (if is_file fs element then file_list @ [element] else file_list)
         in if is_dir fs element
            then (case walk fs element of
                    Inl e \<Rightarrow> Inl e
                  | Inr sub \<Rightarrow> walk_loop fs rest (file_list1 @ sub))
            else walk_loop fs rest file_list1))"
  by pat_completeness auto

termination
proof (relation "inv_image (less_than <*lex*> less_than) walk_measure")
  show "wf (inv_image (less_than <*lex*> less_than) walk_measure)"
    by (intro wf_inv_image wf_lex_prod wf_less_than)
next
  fix fs dir_path b
  assume "iterdir fs dir_path = Inr b"
  then show "((Inr (fs, b, [])), Inl (fs, dir_path))
      \<in> inv_image (less_than <*lex*> less_than) walk_measure"
    by (rule walk_descends)
next
  fix fs :: node and element rest file_list
  show "((Inr (fs, rest, file_list)), Inr (fs, element # rest, file_list))
      \<in> inv_image (less_than <*lex*> less_than) walk_measure"
    by (simp add: max_def)
next
  fix fs :: node and element rest and file_list x :: "path list"
  assume "\<not> is_symlink fs element"
  then show "(Inl (fs, element), Inr (fs, element # rest, file_list))
      \<in> inv_image (less_than <*lex*> less_than) walk_measure"
    by (simp add: walk_weight_def max_def)
next
  fix fs :: node and element rest and file_list x b :: "path list"
  show "(Inr (fs, rest, x @ b), Inr (fs, element # rest, file_list))
      \<in> inv_image (less_than <*lex*> less_than) walk_measure"
    by (simp add: max_def)
next
  fix fs :: node and element rest and file_list x :: "path list"
  show "(Inr (fs, rest, x), Inr (fs, element # rest, file_list))
      \<in> inv_image (less_than <*lex*> less_than) walk_measure"
    by (simp add: max_def)
qed

text \<open>
  \<open>walk_walk_loop_dom\<close> holds of the arguments from which every chain of recursive calls
  of \<open>walk\<close> and of its loop is finite. It holds of all of them.
\<close>

lemma walk_all_dom:
  "walk_walk_loop_dom (Inl (fs, dir_path))"
  "walk_walk_loop_dom (Inr (fs, elements, file_list))"
proof (induction fs dir_path and fs elements file_list rule: walk_walk_loop.induct)
  case (1 fs dir_path)
  then show ?case by (auto intro: walk_walk_loop.domintros)
next
  case (2 fs file_list)
  show ?case by (rule walk_walk_loop.domintros)
next
  case (3 fs element rest file_list)
  show ?case
    by (rule walk_walk_loop.domintros) (use 3 in \<open>auto simp del: walk.simps\<close>)
qed

section \<open>The hasher\<close>

text \<open>
  \<^verbatim>\<open>hashlib.md5\<close> is outside the repository. It is taken as a parameter: the state of
  a fresh hash object, \<^verbatim>\<open>update\<close> and \<^verbatim>\<open>hexdigest\<close>. \<open>streaming\<close> is the
  contract \<^verbatim>\<open>hashlib\<close> documents for \<^verbatim>\<open>update\<close>: repeated calls are equivalent to
  a single call with the concatenation of the arguments.
\<close>

record 'h hasher =
  h_new :: 'h
  h_update :: "'h \<Rightarrow> bytes \<Rightarrow> 'h"
  h_hexdigest :: "'h \<Rightarrow> string"

definition streaming :: "'h hasher \<Rightarrow> bool" where
  "streaming H =
     ((\<forall>s. h_update H s [] = s) \<and>
      (\<forall>s a b. h_update H (h_update H s a) b = h_update H s (a @ b)))"

text \<open>
  The loop \<^verbatim>\<open>while chunk := f.read(n): hash.update(chunk)\<close>. The open file is the
  bytes not read yet: \<^verbatim>\<open>f.read(n)\<close> returns the next \<open>n\<close> of them (fewer at the end
  of the file, none after it) and moves on. The source reads with \<open>n = 8192\<close>.
\<close>

function read_loop :: "nat \<Rightarrow> 'h hasher \<Rightarrow> 'h \<Rightarrow> bytes \<Rightarrow> 'h" where
  "read_loop n H hash f =
     (let chunk = take n f; f' = drop n f
      in if chunk = [] then hash else read_loop n H (h_update H hash chunk) f')"
  by pat_completeness auto

termination
  by (relation "measure (\<lambda>(n, H, hash, f). length f)") auto

declare read_loop.simps [simp del]

definition calc_md5 :: "'h hasher \<Rightarrow> node \<Rightarrow> path \<Rightarrow> error + string" where
  "calc_md5 H fs file_path =
     (case open_rb fs file_path of
        Inl e \<Rightarrow> Inl e
      | Inr f \<Rightarrow> Inr (h_hexdigest H (read_loop 8192 H (h_new H) f)))"

section \<open>Merging the two trees\<close>

text \<open>
  \<^verbatim>\<open>file.relative_to(root)\<close> strips the components of \<open>root\<close> from the front of
  \<open>file\<close> and raises \<^verbatim>\<open>ValueError\<close> when \<open>root\<close> is not a prefix. \<^verbatim>\<open>str\<close> of a
  relative path joins its components with \<^verbatim>\<open>/\<close>; the empty path prints as a dot.
\<close>

fun relative_to :: "path \<Rightarrow> path \<Rightarrow> error + path" where
  "relative_to p [] = Inr p"
| "relative_to [] (r # rs) = Inl ValueError"
| "relative_to (c # cs) (r # rs) = (if c = r then relative_to cs rs else Inl ValueError)"

fun join_parts :: "path \<Rightarrow> string" where
  "join_parts [] = []"
| "join_parts [c] = c"
| "join_parts (c # cs) = c @ ''/'' @ join_parts cs"

definition str_path :: "path \<Rightarrow> string" where
  "str_path p = (if p = [] then ''.'' else join_parts p)"

text \<open>\<^verbatim>\<open>str(file.relative_to(roots[i]))\<close>, with the \<^verbatim>\<open>IndexError\<close> of \<^verbatim>\<open>roots[i]\<close>.\<close>

definition rel_name :: "path list \<Rightarrow> nat \<Rightarrow> path \<Rightarrow> error + string" where
  "rel_name roots i file =
     (if i < length roots
      then (case relative_to file (roots ! i) of
              Inl e \<Rightarrow> Inl e
            | Inr rel \<Rightarrow> Inr (str_path rel))
      else Inl IndexError)"

text \<open>A list comprehension whose element expression may raise.\<close>

fun mapE :: "('a \<Rightarrow> error + 'b) \<Rightarrow> 'a list \<Rightarrow> error + 'b list" where
  "mapE f [] = Inr []"
| "mapE f (x # xs) =
     (case f x of
        Inl e \<Rightarrow> Inl e
      | Inr y \<Rightarrow> (case mapE f xs of Inl e \<Rightarrow> Inl e | Inr ys \<Rightarrow> Inr (y # ys)))"

text \<open>
  A Python \<^verbatim>\<open>dict\<close> keeps its keys in insertion order: it is an association list
  with distinct keys. Assigning to a key that is present replaces its value in place,
  assigning to a new key appends it (\<open>AList.update\<close>); reading a missing key raises
  \<^verbatim>\<open>KeyError\<close>. The two-slot list \<^verbatim>\<open>[hash_a, hash_b]\<close> stored under each name is a
  pair of optional digests, \<open>None\<close> being Python's \<^verbatim>\<open>None\<close>.
\<close>

type_synonym hashes = "string option \<times> string option"

definition getitem :: "('k \<times> 'v) list \<Rightarrow> 'k \<Rightarrow> error + 'v" where
  "getitem d k = (case map_of d k of None \<Rightarrow> Inl KeyError | Some v \<Rightarrow> Inr v)"

definition set_slot :: "nat \<Rightarrow> string \<Rightarrow> hashes \<Rightarrow> hashes" where
  "set_slot i checksum h = (if i = 0 then (Some checksum, snd h) else (fst h, Some checksum))"

text \<open>
  The two loops \<^verbatim>\<open>for file in file_paths_a\<close> and \<^verbatim>\<open>for file in file_paths_b\<close>
  differ in the slot and the root only: \<open>hash_loop\<close> is either, for slot \<open>i\<close>.
\<close>

fun hash_loop :: "'h hasher \<Rightarrow> node \<Rightarrow> path list \<Rightarrow> nat \<Rightarrow> path list
    \<Rightarrow> (string \<times> hashes) list \<Rightarrow> error + (string \<times> hashes) list" where
  "hash_loop H fs roots i [] file_hashes = Inr file_hashes"
| "hash_loop H fs roots i (file # rest) file_hashes =
     (case calc_md5 H fs file of
        Inl e \<Rightarrow> Inl e
      | Inr checksum \<Rightarrow>
          (case rel_name roots i file of
             Inl e \<Rightarrow> Inl e
           | Inr name \<Rightarrow>
               (case getitem file_hashes name of
                  Inl e \<Rightarrow> Inl e
                | Inr slots \<Rightarrow>
                    hash_loop H fs roots i rest
                      (AList.update name (set_slot i checksum slots) file_hashes))))"

definition get_file_hashes :: "'h hasher \<Rightarrow> node \<Rightarrow> path list \<Rightarrow> path list \<Rightarrow> path list
    \<Rightarrow> error + (string \<times> hashes) list" where
  "get_file_hashes H fs file_paths_a file_paths_b roots =
     (case mapE (rel_name roots 0) file_paths_a of
        Inl e \<Rightarrow> Inl e
      | Inr dir_a_file_names \<Rightarrow>
     (case mapE (rel_name roots 1) file_paths_b of
        Inl e \<Rightarrow> Inl e
      | Inr dir_b_file_names \<Rightarrow>
     (let file_names = sorted_list_of_set (set dir_a_file_names \<union> set dir_b_file_names);
          file_hashes = map (\<lambda>file. (file, (None, None))) file_names
      in (case hash_loop H fs roots 0 file_paths_a file_hashes of
            Inl e \<Rightarrow> Inl e
          | Inr file_hashes_a \<Rightarrow> hash_loop H fs roots 1 file_paths_b file_hashes_a))))"

section \<open>The differ\<close>

text \<open>
  A change record is the inner dictionary with the keys \<^verbatim>\<open>"Change type"\<close>,
  \<^verbatim>\<open>"First hash"\<close> and \<^verbatim>\<open>"Second hash"\<close>.
\<close>

record change =
  change_type :: string
  first_hash :: "string option"
  second_hash :: "string option"

fun differ_loop :: "(string \<times> hashes) list \<Rightarrow> string list \<Rightarrow> (string \<times> change) list
    \<Rightarrow> error + (string \<times> change) list" where
  "differ_loop file_hashes_dict [] changes = Inr changes"
| "differ_loop file_hashes_dict (entry # rest) changes =
     (case getitem file_hashes_dict entry of
        Inl e \<Rightarrow> Inl e
      | Inr slots \<Rightarrow>
          if fst slots = None
          then differ_loop file_hashes_dict rest
                 (AList.update entry
                    \<lparr>change_type = ''Added'', first_hash = fst slots, second_hash = snd slots\<rparr>
                    changes)
          else if snd slots = None
          then differ_loop file_hashes_dict rest
                 (AList.update entry
                    \<lparr>change_type = ''Removed'', first_hash = fst slots, second_hash = snd slots\<rparr>
                    changes)
          else if fst slots \<noteq> snd slots
          then differ_loop file_hashes_dict rest
                 (AList.update entry
                    \<lparr>change_type = ''Modified'', first_hash = fst slots, second_hash = snd slots\<rparr>
                    changes)
          else differ_loop file_hashes_dict rest changes)"

text \<open>
  Standard output is the list of what was written to it. \<^verbatim>\<open>pprint\<close> writes a
  dictionary with its items sorted by key; how it lays the text out is left abstract.
\<close>

datatype printed = Text string | Pretty "(string \<times> change) list"

definition pprint :: "(string \<times> change) list \<Rightarrow> printed list \<Rightarrow> printed list" where
  "pprint object out = out @ [Pretty (sort_key fst object)]"

definition print :: "string \<Rightarrow> printed list \<Rightarrow> printed list" where
  "print line out = out @ [Text line]"

definition differ :: "(string \<times> hashes) list \<Rightarrow> printed list \<Rightarrow> printed list \<times> (error + unit)" where
  "differ file_hashes_dict out =
     (case differ_loop file_hashes_dict (map fst file_hashes_dict) [] of
        Inl e \<Rightarrow> (out, Inl e)
      | Inr changes \<Rightarrow> (pprint changes out, Inr ()))"

section \<open>The program\<close>

text \<open>
  \<^verbatim>\<open>Path(s)\<close> splits \<open>s\<close> at \<^verbatim>\<open>/\<close> and drops empty components and single dots.
\<close>

fun path_parts :: "string \<Rightarrow> string \<Rightarrow> path" where
  "path_parts part [] = (if part = [] \<or> part = ''.'' then [] else [part])"
| "path_parts part (c # cs) =
     (if c = CHR ''/''
      then (if part = [] \<or> part = ''.'' then path_parts [] cs else part # path_parts [] cs)
      else path_parts (part @ [c]) cs)"

definition Path :: "string \<Rightarrow> path" where
  "Path s = path_parts [] s"

definition argv_at :: "string list \<Rightarrow> nat \<Rightarrow> error + string" where
  "argv_at argv i = (if i < length argv then Inr (argv ! i) else Inl IndexError)"

definition main :: "'h hasher \<Rightarrow> node \<Rightarrow> string list \<Rightarrow> printed list
    \<Rightarrow> printed list \<times> (error + unit)" where
  "main H fs argv out =
     (case argv_at argv 1 of Inl e \<Rightarrow> (out, Inl e) | Inr arg1 \<Rightarrow>
     (case argv_at argv 2 of Inl e \<Rightarrow> (out, Inl e) | Inr arg2 \<Rightarrow>
     (let root_a = Path arg1; root_b = Path arg2
      in (case walk fs root_a of Inl e \<Rightarrow> (out, Inl e) | Inr dir_a_files \<Rightarrow>
         (case walk fs root_b of Inl e \<Rightarrow> (out, Inl e) | Inr dir_b_files \<Rightarrow>
         (case get_file_hashes H fs dir_a_files dir_b_files [root_a, root_b] of
            Inl e \<Rightarrow> (out, Inl e)
          | Inr hash_dict \<Rightarrow> differ hash_dict out))))))"

definition USAGE :: string where
  "USAGE = ''USAGE: firmware_diff.py <Older firmware fs dir> <Newer firmware fs dir>''"

definition script :: "'h hasher \<Rightarrow> node \<Rightarrow> string list \<Rightarrow> printed list
    \<Rightarrow> printed list \<times> (error + unit)" where
  "script H fs argv out =
     (if length argv \<noteq> 3 then (print USAGE out, Inr ()) else main H fs argv out)"

section \<open>Definitions for the statements\<close>

text \<open>
  The chain of tests of \<^verbatim>\<open>differ\<close> on one pair of slots, and the item it adds to
  \<^verbatim>\<open>changes\<close> for a name (none for an unchanged file).
\<close>

definition change_of :: "hashes \<Rightarrow> change option" where
  "change_of h =
     (if fst h = None
      then Some \<lparr>change_type = ''Added'', first_hash = fst h, second_hash = snd h\<rparr>
      else if snd h = None
      then Some \<lparr>change_type = ''Removed'', first_hash = fst h, second_hash = snd h\<rparr>
      else if fst h \<noteq> snd h
      then Some \<lparr>change_type = ''Modified'', first_hash = fst h, second_hash = snd h\<rparr>
      else None)"

text \<open>The item of \<^verbatim>\<open>changes\<close> for the name \<open>k\<close> of the record \<open>d\<close>, if it has one.\<close>

definition entry_of :: "(string \<times> hashes) list \<Rightarrow> string \<Rightarrow> (string \<times> change) option" where
  "entry_of d k = (case map_of d k of None \<Rightarrow> None | Some h \<Rightarrow> map_option (Pair k) (change_of h))"

text \<open>
  What one hashing loop has done to an item of the record when it ends: \<open>al\<close> pairs the
  name of every file of the loop with its digest, the last file first, and slot \<open>i\<close> of
  the item holds the digest of the last file of its name, if there is one.
\<close>

definition fill :: "nat \<Rightarrow> (string \<times> string) list \<Rightarrow> string \<times> hashes \<Rightarrow> string \<times> hashes" where
  "fill i al = (\<lambda>(k, h). (k, case map_of al k of None \<Rightarrow> h | Some c \<Rightarrow> set_slot i c h))"

text \<open>The merged record as an outer join of the two trees' digests on the relative name.\<close>

definition outer_join :: "string list \<Rightarrow> string list \<Rightarrow> string list \<Rightarrow> string list
    \<Rightarrow> (string \<times> hashes) list" where
  "outer_join na da nb db =
     map (\<lambda>k. (k, (map_of (rev (zip na da)) k, map_of (rev (zip nb db)) k)))
       (sorted_list_of_set (set na \<union> set nb))"

text \<open>
  The regular files reachable from a directory by descending through directories only:
  \<open>genuine_file fs p rel\<close> says that \<open>p @ rel\<close> is a regular file and that every
  component of \<open>rel\<close> before the last names a directory, none of them reached through
  a symbolic link in its last component. \<open>blocked fs p rel\<close> says that the directory
  \<open>p @ rel\<close>, reached in the same way through directories that can be listed, cannot be
  listed itself.
\<close>

fun genuine_file :: "node \<Rightarrow> path \<Rightarrow> path \<Rightarrow> bool" where
  "genuine_file fs p [] = False"
| "genuine_file fs p [n] = (case lstat fs (p @ [n]) of Some (File r bs) \<Rightarrow> True | _ \<Rightarrow> False)"
| "genuine_file fs p (n # m # rel) =
     (case lstat fs (p @ [n]) of
        Some (Dir r es) \<Rightarrow> genuine_file fs (p @ [n]) (m # rel)
      | _ \<Rightarrow> False)"

text \<open>The files one element of a listing adds to \<^verbatim>\<open>file_list\<close>.\<close>

definition contrib :: "node \<Rightarrow> path \<Rightarrow> path set" where
  "contrib fs e =
     (if is_symlink fs e then {}
      else (if is_file fs e then {e} else {}) \<union>
           (if is_dir fs e then {e @ rel |rel. genuine_file fs e rel} else {}))"

text \<open>See above: a directory of the walk that cannot be listed.\<close>

fun blocked :: "node \<Rightarrow> path \<Rightarrow> path \<Rightarrow> bool" where
  "blocked fs p [] = isl (iterdir fs p)"
| "blocked fs p (n # rel) =
     (\<not> isl (iterdir fs p) \<and>
      (case lstat fs (p @ [n]) of
         Some (Dir r es) \<Rightarrow> blocked fs (p @ [n]) rel
       | _ \<Rightarrow> False))"

text \<open>
  A tree as a filesystem keeps it: no directory has two entries of one name, and no name
  contains a slash.
\<close>

fun well_formed :: "node \<Rightarrow> bool" where
  "well_formed (Dir r es) =
     (distinct (map fst es) \<and> (\<forall>(n, c) \<in> set es. CHR ''/'' \<notin> set n \<and> well_formed c))"
| "well_formed _ = True"

text \<open>
  \<open>reordered fs fs'\<close>: the two trees have the same files, directories and links under the
  same names, with the entries of a directory listed in any order in each.
\<close>

fun reordered :: "node \<Rightarrow> node \<Rightarrow> bool" where
  "reordered (File r bs) (File r' bs') = (r = r' \<and> bs = bs')"
| "reordered (Dir r es) (Dir r' es') =
     (r = r' \<and> set (map fst es) = set (map fst es') \<and>
      (\<forall>(n, c) \<in> set es. \<forall>(n', c') \<in> set es'. n = n' \<longrightarrow> reordered c c'))"
| "reordered (Symlink t) (Symlink t') = (t = t')"
| "reordered Special Special = True"
| "reordered _ _ = False"

text \<open>Two well-formed trees that differ in the order of listing only.\<close>

definition sim :: "node \<Rightarrow> node \<Rightarrow> bool" where
  "sim c c' = (reordered c c' \<and> well_formed c \<and> well_formed c')"

section \<open>Concrete trees\<close>

text \<open>
  The trees of the scenarios of the specification, with a removed file, a device node and
  two symbolic links added to the older tree: \<open>loop\<close> points back at an ancestor
  directory, \<open>ln\<close> at a regular file. \<open>concat_hasher\<close> is a streaming hash whose
  digest is the content itself.
\<close>

definition concat_hasher :: "bytes hasher" where
  "concat_hasher = \<lparr>h_new = [], h_update = (\<lambda>s chunk. s @ chunk), h_hexdigest = (\<lambda>s. s)\<rparr>"

definition example_fs :: node where
  "example_fs = Dir True [
     (''old'', Dir True [
        (''b.bin'', File True ''2''),
        (''a.bin'', File True ''1''),
        (''etc'', Dir True [
           (''loop'', Symlink [''old'']),
           (''gone'', File True ''5''),
           (''dev'', Special),
           (''ln'', Symlink [''old'', ''a.bin''])])]),
     (''new'', Dir True [
        (''c.bin'', File True ''4''),
        (''b.bin'', File True ''3''),
        (''a.bin'', File True ''1'')])]"

definition example_old :: "path list" where
  "example_old = [[''old'', ''b.bin''], [''old'', ''a.bin''], [''old'', ''etc'', ''gone'']]"

definition example_new :: "path list" where
  "example_new = [[''new'', ''c.bin''], [''new'', ''b.bin''], [''new'', ''a.bin'']]"

definition example_merged :: "(string \<times> hashes) list" where
  "example_merged =
     [(''a.bin'', (Some ''1'', Some ''1'')), (''b.bin'', (Some ''2'', Some ''3'')),
      (''c.bin'', (None, Some ''4'')), (''etc/gone'', (Some ''5'', None))]"

definition example_changes :: "(string \<times> change) list" where
  "example_changes =
     [(''b.bin'', \<lparr>change_type = ''Modified'', first_hash = Some ''2'', second_hash = Some ''3''\<rparr>),
      (''c.bin'', \<lparr>change_type = ''Added'', first_hash = None, second_hash = Some ''4''\<rparr>),
      (''etc/gone'', \<lparr>change_type = ''Removed'', first_hash = Some ''5'', second_hash = None\<rparr>)]"

text \<open>A pair of trees with a directory and a file the process may not read.\<close>

definition locked_fs :: node where
  "locked_fs = Dir True [
     (''old'', Dir True [(''a.bin'', File True ''1''), (''keys'', Dir False [])]),
     (''new'', Dir True [(''a.bin'', File False ''2'')])]"

text \<open>The first pair of trees with the entries of every directory in another order.\<close>

definition example_fs_reordered :: node where
  "example_fs_reordered = Dir True [
     (''new'', Dir True [
        (''a.bin'', File True ''1''),
        (''b.bin'', File True ''3''),
        (''c.bin'', File True ''4'')]),
     (''old'', Dir True [
        (''etc'', Dir True [
           (''ln'', Symlink [''old'', ''a.bin'']),
           (''dev'', Special),
           (''gone'', File True ''5''),
           (''loop'', Symlink [''old''])]),
        (''a.bin'', File True ''1''),
        (''b.bin'', File True ''2'')])]"

section \<open>The loops in closed form\<close>

text \<open>With a streaming hash, reading in chunks of any positive size feeds the whole file.\<close>

lemma read_loop_update:
  "streaming H \<Longrightarrow> 0 < n \<Longrightarrow> read_loop n H s f = h_update H s f"
proof (induction n H s f rule: read_loop.induct)
  case (1 n H s f)
  show ?case
  proof (cases "take n f = []")
    case True
    with \<open>0 < n\<close> have "f = []" by (simp add: take_eq_Nil)
    with \<open>streaming H\<close> show ?thesis
      by (simp add: read_loop.simps [of n H s] streaming_def)
  next
    case False
    have "read_loop n H s f = read_loop n H (h_update H s (take n f)) (drop n f)"
      using False by (simp add: read_loop.simps [of n H s f])
    also have "\<dots> = h_update H (h_update H s (take n f)) (drop n f)"
      using False "1.prems" by (intro "1.IH") simp_all
    also have "\<dots> = h_update H s (take n f @ drop n f)"
      using \<open>streaming H\<close> by (simp add: streaming_def)
    finally show ?thesis by simp
  qed
qed

lemma update_fresh: "k \<notin> fst ` set al \<Longrightarrow> AList.update k v al = al @ [(k, v)]"
  by (induction al) auto

lemma differ_loop_step:
  "map_of d k = Some h \<Longrightarrow>
   differ_loop d (k # ks) acc =
     (case change_of h of None \<Rightarrow> differ_loop d ks acc
      | Some c \<Rightarrow> differ_loop d ks (AList.update k c acc))"
  by (auto simp: getitem_def change_of_def)

lemma differ_loop_closed:
  "distinct ks \<Longrightarrow> set ks \<subseteq> fst ` set d \<Longrightarrow> set ks \<inter> fst ` set acc = {} \<Longrightarrow>
   differ_loop d ks acc = Inr (acc @ List.map_filter (entry_of d) ks)"
proof (induction ks arbitrary: acc)
  case Nil
  then show ?case by (simp add: map_filter_simps)
next
  case (Cons k ks)
  from Cons.prems(2) obtain h where h: "map_of d k = Some h"
    by (cases "map_of d k") (auto simp: map_of_eq_None_iff)
  show ?case
  proof (cases "change_of h")
    case None
    with h have "entry_of d k = None" by (simp add: entry_of_def)
    with h None Cons show ?thesis
      by (simp add: differ_loop_step [OF h] map_filter_simps del: differ_loop.simps)
  next
    case (Some c)
    from Cons.prems(3) have fresh: "k \<notin> fst ` set acc" by auto
    have "differ_loop d (k # ks) acc = differ_loop d ks (acc @ [(k, c)])"
      using Some fresh by (simp add: differ_loop_step [OF h] update_fresh del: differ_loop.simps)
    also have "\<dots> = Inr ((acc @ [(k, c)]) @ List.map_filter (entry_of d) ks)"
      using Cons.prems by (intro Cons.IH) auto
    finally show ?thesis
      using h Some by (simp add: map_filter_simps entry_of_def [of d k])
  qed
qed

lemma mapE_Cons_Inr:
  "mapE f (x # xs) = Inr ys \<longleftrightarrow> (\<exists>y ys'. f x = Inr y \<and> mapE f xs = Inr ys' \<and> ys = y # ys')"
  by (auto split: sum.splits)

lemma mapE_length: "mapE f xs = Inr ys \<Longrightarrow> length ys = length xs"
  by (induction xs arbitrary: ys) (auto split: sum.splits)

lemma update_distinct:
  "distinct (map fst d) \<Longrightarrow> map_of d n = Some h0 \<Longrightarrow>
   AList.update n (g h0) d = map (\<lambda>(k, h). if k = n then (k, g h) else (k, h)) d"
proof (induction d)
  case Nil
  then show ?case by simp
next
  case (Cons p d)
  obtain k h where p: "p = (k, h)" by (cases p)
  show ?case
  proof (cases "k = n")
    case True
    with Cons.prems p have "h = h0" by simp
    moreover from Cons.prems p True have "n \<notin> fst ` set d" by auto
    then have "map (\<lambda>(k, h). if k = n then (k, g h) else (k, h)) d = d"
      by (induction d) auto
    ultimately show ?thesis using p True by simp
  next
    case False
    with Cons p show ?thesis by simp
  qed
qed

lemma set_slot_twice: "set_slot i c' (set_slot i c h) = set_slot i c' h"
  by (simp add: set_slot_def)

lemma fill_update:
  "fill i al (if k = n then (k, set_slot i c h) else (k, h)) = fill i (al @ [(n, c)]) (k, h)"
  by (auto simp: fill_def set_slot_twice map_add_def split: option.splits)

lemma hash_loop_step:
  "calc_md5 H fs file = Inr c \<Longrightarrow> rel_name roots i file = Inr n \<Longrightarrow> map_of d n = Some h \<Longrightarrow>
   hash_loop H fs roots i (file # rest) d =
     hash_loop H fs roots i rest (AList.update n (set_slot i c h) d)"
  by (simp add: getitem_def)

lemma hash_loop_closed:
  "mapE (rel_name roots i) files = Inr ns \<Longrightarrow> mapE (calc_md5 H fs) files = Inr ds \<Longrightarrow>
   set ns \<subseteq> fst ` set d \<Longrightarrow> distinct (map fst d) \<Longrightarrow>
   hash_loop H fs roots i files d = Inr (map (fill i (rev (zip ns ds))) d)"
proof (induction files arbitrary: ns ds d)
  case Nil
  then show ?case by (simp add: fill_def)
next
  case (Cons f rest)
  from Cons.prems(1) [unfolded mapE_Cons_Inr] obtain n ns' where n: "rel_name roots i f = Inr n"
    and ns': "mapE (rel_name roots i) rest = Inr ns'" and ns: "ns = n # ns'"
    by blast
  from Cons.prems(2) [unfolded mapE_Cons_Inr] obtain c ds' where c: "calc_md5 H fs f = Inr c"
    and ds': "mapE (calc_md5 H fs) rest = Inr ds'" and ds: "ds = c # ds'"
    by blast
  from Cons.prems(3) ns obtain h where h: "map_of d n = Some h"
    by (cases "map_of d n") (auto simp: map_of_eq_None_iff)
  let ?d1 = "AList.update n (set_slot i c h) d"
  have d1: "?d1 = map (\<lambda>(k, h). if k = n then (k, set_slot i c h) else (k, h)) d"
    using Cons.prems(4) h by (rule update_distinct)
  have keys: "map fst ?d1 = map fst d"
    using h by (auto simp: update_keys dest: map_of_SomeD intro: rev_image_eqI)
  have "hash_loop H fs roots i (f # rest) d = hash_loop H fs roots i rest ?d1"
    using c n h by (rule hash_loop_step)
  also have "\<dots> = Inr (map (fill i (rev (zip ns' ds'))) ?d1)"
  proof (rule Cons.IH [OF ns' ds'])
    have "fst ` set ?d1 = fst ` set d"
      using keys by (metis set_map)
    with Cons.prems(3) ns show "set ns' \<subseteq> fst ` set ?d1" by simp
    from keys Cons.prems(4) show "distinct (map fst ?d1)" by simp
  qed
  also have "map (fill i (rev (zip ns' ds'))) ?d1 = map (fill i (rev (zip ns ds))) d"
    unfolding d1 ns ds by (simp add: fill_update case_prod_unfold fill_update [of _ _ "fst _" _ _ "snd _", simplified])
  finally show ?case .
qed

lemma hash_loop_Inr_D:
  "hash_loop H fs roots i files d = Inr d' \<Longrightarrow>
   \<exists>ns ds. mapE (rel_name roots i) files = Inr ns \<and> mapE (calc_md5 H fs) files = Inr ds"
proof (induction files arbitrary: d)
  case Nil
  then show ?case by simp
next
  case (Cons f rest)
  from Cons.prems obtain c n h where c: "calc_md5 H fs f = Inr c"
    and n: "rel_name roots i f = Inr n" and h: "getitem d n = Inr h"
    and rest: "hash_loop H fs roots i rest (AList.update n (set_slot i c h) d) = Inr d'"
    by (auto split: sum.splits)
  from Cons.IH [OF rest] c n show ?case by auto
qed

lemma fill_fresh:
  "fill (Suc 0) bl (fill 0 al (k, (None, None))) = (k, (map_of al k, map_of bl k))"
  by (simp add: fill_def set_slot_def split: option.splits)

lemma get_file_hashes_closed:
  assumes "mapE (rel_name roots 0) fa = Inr na" and "mapE (rel_name roots 1) fb = Inr nb"
    and "mapE (calc_md5 H fs) fa = Inr da" and "mapE (calc_md5 H fs) fb = Inr db"
  shows "get_file_hashes H fs fa fb roots = Inr (outer_join na da nb db)"
proof -
  let ?names = "sorted_list_of_set (set na \<union> set nb)"
  let ?d0 = "map (\<lambda>k. (k, (None, None) :: hashes)) ?names"
  let ?d1 = "map (fill 0 (rev (zip na da))) ?d0"
  have keys0: "map fst ?d0 = ?names" by (simp add: comp_def)
  have keys1: "map fst ?d1 = ?names" by (simp add: comp_def fill_def)
  have a: "hash_loop H fs roots 0 fa ?d0 = Inr ?d1"
    by (rule hash_loop_closed [OF assms(1,3)]) (simp_all add: comp_def image_image)
  have b: "hash_loop H fs roots 1 fb ?d1 = Inr (map (fill 1 (rev (zip nb db))) ?d1)"
    by (rule hash_loop_closed [OF assms(2,4)]) (simp_all add: comp_def image_image fill_def)
  have "map (fill 1 (rev (zip nb db))) ?d1 = outer_join na da nb db"
    by (simp add: outer_join_def comp_def fill_fresh)
  with a b assms(1,2) show ?thesis
    by (simp add: get_file_hashes_def)
qed

lemma get_file_hashes_Inr_D:
  assumes "get_file_hashes H fs fa fb roots = Inr d"
  shows "\<exists>na nb da db. mapE (rel_name roots 0) fa = Inr na \<and> mapE (rel_name roots 1) fb = Inr nb
           \<and> mapE (calc_md5 H fs) fa = Inr da \<and> mapE (calc_md5 H fs) fb = Inr db
           \<and> d = outer_join na da nb db"
proof -
  from assms obtain na nb d1 where na: "mapE (rel_name roots 0) fa = Inr na"
    and nb: "mapE (rel_name roots 1) fb = Inr nb"
    and a: "hash_loop H fs roots 0 fa
              (map (\<lambda>file. (file, (None, None))) (sorted_list_of_set (set na \<union> set nb))) = Inr d1"
    and b: "hash_loop H fs roots 1 fb d1 = Inr d"
    by (auto simp: get_file_hashes_def Let_def split: sum.splits)
  from hash_loop_Inr_D [OF a] obtain da where da: "mapE (calc_md5 H fs) fa = Inr da" by blast
  from hash_loop_Inr_D [OF b] obtain db where db: "mapE (calc_md5 H fs) fb = Inr db" by blast
  from get_file_hashes_closed [OF na nb da db] assms na nb da db show ?thesis by simp
qed

lemma outer_join_keys: "map fst (outer_join na da nb db) = sorted_list_of_set (set na \<union> set nb)"
  by (simp add: outer_join_def comp_def)

lemma map_of_rev_zip_None:
  "length ns = length ds \<Longrightarrow> map_of (rev (zip ns ds)) k = None \<longleftrightarrow> k \<notin> set ns"
  by (simp add: map_of_eq_None_iff image_iff set_zip in_set_conv_nth) (metis fst_conv)

lemma outer_join_mem:
  "(k, (a, b)) \<in> set (outer_join na da nb db) \<longleftrightarrow>
     k \<in> set na \<union> set nb \<and> a = map_of (rev (zip na da)) k \<and> b = map_of (rev (zip nb db)) k"
  by (auto simp: outer_join_def)

lemma map_of_changes:
  "map_of (List.map_filter (entry_of d) ks) k =
     (if k \<in> set ks then (case map_of d k of None \<Rightarrow> None | Some h \<Rightarrow> change_of h) else None)"
  by (induction ks) (auto simp: map_filter_simps entry_of_def split: option.splits)

lemma keys_changes:
  "map fst (List.map_filter (entry_of d) ks) = filter (\<lambda>k. entry_of d k \<noteq> None) ks"
  by (induction ks) (auto simp: map_filter_simps entry_of_def split: option.splits)

lemma mapE_nth:
  "mapE f xs = Inr ys \<Longrightarrow> j < length xs \<Longrightarrow> f (xs ! j) = Inr (ys ! j)"
proof (induction xs arbitrary: ys j)
  case Nil
  then show ?case by simp
next
  case (Cons x xs)
  from Cons.prems(1) [unfolded mapE_Cons_Inr] obtain y ys' where
    "f x = Inr y" "mapE f xs = Inr ys'" "ys = y # ys'" by blast
  with Cons.IH [of ys' "j - 1"] Cons.prems(2) show ?case
    by (cases j) simp_all
qed

lemma map_of_rev_zip_Some:
  assumes "map_of (rev (zip ns ds)) k = Some x"
  shows "\<exists>j. j < length ns \<and> j < length ds \<and> ns ! j = k \<and> ds ! j = x"
proof -
  from assms have "(k, x) \<in> set (zip ns ds)"
    by (auto dest: map_of_SomeD)
  then show ?thesis
    by (auto simp: set_zip)
qed

text \<open>What a successful merge looks like: everything the claims on it need.\<close>

lemma merged_facts:
  assumes "get_file_hashes H fs fa fb roots = Inr merged"
  obtains na nb da db where
    "mapE (rel_name roots 0) fa = Inr na" "mapE (rel_name roots 1) fb = Inr nb"
    "mapE (calc_md5 H fs) fa = Inr da" "mapE (calc_md5 H fs) fb = Inr db"
    "length da = length na" "length db = length nb"
    "merged = outer_join na da nb db"
    "map fst merged = sorted_list_of_set (set na \<union> set nb)"
proof -
  from get_file_hashes_Inr_D [OF assms] obtain na nb da db where
    *: "mapE (rel_name roots 0) fa = Inr na" "mapE (rel_name roots 1) fb = Inr nb"
    "mapE (calc_md5 H fs) fa = Inr da" "mapE (calc_md5 H fs) fb = Inr db"
    "merged = outer_join na da nb db" by blast
  from * have "length da = length na" "length db = length nb"
    by (simp_all add: mapE_length)
  with * that show ?thesis by (simp add: outer_join_keys)
qed

lemma differ_loop_merged:
  assumes "distinct (map fst d)"
  shows "differ_loop d (map fst d) [] = Inr (List.map_filter (entry_of d) (map fst d))"
  using differ_loop_closed [of "map fst d" d "[]"] assms by simp

lemma differ_merged:
  assumes "distinct (map fst d)" and "sorted (map fst d)"
  shows "differ d out = (out @ [Pretty (List.map_filter (entry_of d) (map fst d))], Inr ())"
proof -
  have "sorted (map fst (List.map_filter (entry_of d) (map fst d)))"
    using assms(2) by (simp add: keys_changes sorted_wrt_filter)
  then show ?thesis
    by (simp add: differ_def differ_loop_merged [OF assms(1)] pprint_def sort_key_id_if_sorted)
qed

lemma merged_slots:
  assumes "get_file_hashes H fs fa fb roots = Inr merged"
    and "(name, (a, b)) \<in> set merged"
  obtains na nb where
    "mapE (rel_name roots 0) fa = Inr na" "mapE (rel_name roots 1) fb = Inr nb"
    "name \<in> set na \<union> set nb" "a = None \<longleftrightarrow> name \<notin> set na" "b = None \<longleftrightarrow> name \<notin> set nb"
    "map_of merged name = Some (a, b)"
proof -
  from assms(1) obtain na nb da db where
    m: "mapE (rel_name roots 0) fa = Inr na" "mapE (rel_name roots 1) fb = Inr nb"
    "length da = length na" "length db = length nb"
    "merged = outer_join na da nb db"
    "map fst merged = sorted_list_of_set (set na \<union> set nb)"
    by (rule merged_facts)
  from assms(2) m(5) have mem: "name \<in> set na \<union> set nb"
    and a: "a = map_of (rev (zip na da)) name" and b: "b = map_of (rev (zip nb db)) name"
    by (simp_all add: outer_join_mem)
  have "distinct (map fst merged)" by (simp add: m(6))
  then have "map_of merged name = Some (a, b)"
    using assms(2) by (rule map_of_is_SomeI)
  with m(1,2) mem a b m(3,4) that show ?thesis
    by (simp add: map_of_rev_zip_None)
qed

lemma change_of_simps:
  "change_of (None, b) = Some \<lparr>change_type = ''Added'', first_hash = None, second_hash = b\<rparr>"
  "change_of (Some x, None) =
     Some \<lparr>change_type = ''Removed'', first_hash = Some x, second_hash = None\<rparr>"
  "x \<noteq> y \<Longrightarrow> change_of (Some x, Some y) =
     Some \<lparr>change_type = ''Modified'', first_hash = Some x, second_hash = Some y\<rparr>"
  "change_of (Some x, Some x) = None"
  by (simp_all add: change_of_def)

section \<open>What the walker finds\<close>

lemma lstat_snoc:
  "lstat fs (p @ [n]) = (case stat fs p of Some (Dir r es) \<Rightarrow> map_of es n | _ \<Rightarrow> None)"
  by (simp add: lstat_def split: option.splits node.splits)

lemma lstat_stat:
  assumes "lstat fs e = Some c" and "link_target c = None"
  shows "stat fs e = Some c"
proof (cases e rule: rev_cases)
  case Nil
  with assms show ?thesis by (simp add: lstat_def stat_def)
next
  case (snoc p n)
  with assms(1) obtain r es where p: "stat fs p = Some (Dir r es)" and c: "map_of es n = Some c"
    by (auto simp: lstat_snoc split: option.splits node.splits)
  from resolve_child [OF p [unfolded stat_def] c assms(2)] snoc show ?thesis
    by (simp add: stat_def)
qed

lemma genuine_file_Cons:
  "genuine_file fs p (n # rel) \<longleftrightarrow>
     (case lstat fs (p @ [n]) of
        Some (File r bs) \<Rightarrow> rel = []
      | Some (Dir r es) \<Rightarrow> genuine_file fs (p @ [n]) rel
      | _ \<Rightarrow> False)"
  by (cases rel) (auto split: option.splits node.splits)

lemma element_iff:
  assumes "iterdir fs p = Inr els"
  shows "e \<in> set els \<longleftrightarrow> (\<exists>n c. e = p @ [n] \<and> lstat fs e = Some c)"
proof -
  from assms obtain es where p: "stat fs p = Some (Dir True es)"
    and els: "els = map (\<lambda>(name, child). p @ [name]) es"
    by (auto simp: iterdir_Inr)
  have "e \<in> set els \<longleftrightarrow> (\<exists>n. e = p @ [n] \<and> n \<in> fst ` set es)"
    unfolding els by (auto simp: case_prod_unfold image_iff)
  also have "\<dots> \<longleftrightarrow> (\<exists>n c. e = p @ [n] \<and> lstat fs e = Some c)"
  proof -
    have "n \<in> fst ` set es \<longleftrightarrow> (\<exists>c. map_of es n = Some c)" for n
      using map_of_eq_None_iff [of es n] by (cases "map_of es n") simp_all
    with p show ?thesis by (auto simp: lstat_snoc)
  qed
  finally show ?thesis .
qed

lemma contrib_union:
  assumes "iterdir fs p = Inr els"
  shows "(\<Union>e \<in> set els. contrib fs e) = {p @ rel |rel. genuine_file fs p rel}"
proof (intro set_eqI iffI)
  fix x
  assume "x \<in> (\<Union>e \<in> set els. contrib fs e)"
  then obtain e where e: "e \<in> set els" and x: "x \<in> contrib fs e" by blast
  from x have ns: "\<not> is_symlink fs e" by (auto simp: contrib_def split: if_splits)
  from stat_element [OF assms e ns] obtain n c where
    en: "e = p @ [n]" and l: "lstat fs e = Some c" and s: "stat fs e = Some c" by blast
  from x ns consider "is_file fs e" "x = e"
    | rel where "is_dir fs e" "x = e @ rel" "genuine_file fs e rel"
    by (auto simp: contrib_def split: if_splits)
  then show "x \<in> {p @ rel |rel. genuine_file fs p rel}"
  proof cases
    case 1
    with s l en have "genuine_file fs p [n]"
      by (auto simp: is_file_def split: node.splits)
    with 1 en show ?thesis by blast
  next
    case 2
    with s l en have "genuine_file fs p (n # rel)"
      by (auto simp: is_dir_def genuine_file_Cons split: node.splits)
    with 2 en show ?thesis by (intro CollectI exI [of _ "n # rel"]) simp
  qed
next
  fix x
  assume "x \<in> {p @ rel |rel. genuine_file fs p rel}"
  then obtain rel where x: "x = p @ rel" and g: "genuine_file fs p rel" by blast
  from g obtain n rel' where rel: "rel = n # rel'" by (cases rel) auto
  from g rel obtain c where l: "lstat fs (p @ [n]) = Some c"
    by (auto simp: genuine_file_Cons split: option.splits)
  with assms have e: "p @ [n] \<in> set els" by (auto simp: element_iff)
  from g rel l have lt: "link_target c = None"
    by (cases c) (auto simp: genuine_file_Cons)
  with l have ns: "\<not> is_symlink fs (p @ [n])"
    by (cases c) (auto simp: is_symlink_def)
  from lstat_stat [OF l lt] have s: "stat fs (p @ [n]) = Some c" .
  from g rel l s ns x have "x \<in> contrib fs (p @ [n])"
    by (cases c) (auto simp: contrib_def genuine_file_Cons is_file_def is_dir_def)
  with e show "x \<in> (\<Union>e \<in> set els. contrib fs e)" by blast
qed

lemma walk_files_aux:
  "(\<forall>files. walk fs p = Inr files \<longrightarrow> set files = {p @ rel |rel. genuine_file fs p rel})"
  "(\<forall>files. walk_loop fs els acc = Inr files \<longrightarrow>
      set files = set acc \<union> (\<Union>e \<in> set els. contrib fs e))"
proof (induction fs p and fs els acc rule: walk_walk_loop.induct)
  case (1 fs dir_path)
  show ?case
  proof (intro allI impI)
    fix files
    assume w: "walk fs dir_path = Inr files"
    then obtain els where it: "iterdir fs dir_path = Inr els"
      and l: "walk_loop fs els [] = Inr files"
      by (auto split: sum.splits)
    from "1.IH" [OF it] l have "set files = (\<Union>e \<in> set els. contrib fs e)" by simp
    with contrib_union [OF it] show "set files = {dir_path @ rel |rel. genuine_file fs dir_path rel}"
      by simp
  qed
next
  case (2 fs file_list)
  then show ?case by simp
next
  case (3 fs element rest file_list)
  show ?case
  proof (intro allI impI)
    fix files
    assume w: "walk_loop fs (element # rest) file_list = Inr files"
    show "set files = set file_list \<union> (\<Union>e \<in> set (element # rest). contrib fs e)"
    proof (cases "is_symlink fs element")
      case True
      with w "3.IH"(1) show ?thesis by (simp add: contrib_def)
    next
      case ns: False
      let ?fl = "if is_file fs element then file_list @ [element] else file_list"
      show ?thesis
      proof (cases "is_dir fs element")
        case True
        with ns w obtain sub where sub: "walk fs element = Inr sub"
          and r: "walk_loop fs rest (?fl @ sub) = Inr files"
          by (auto simp: Let_def split: sum.splits simp del: walk.simps)
        from "3.IH"(2) [OF ns refl True] sub
        have s: "set sub = {element @ rel |rel. genuine_file fs element rel}" by blast
        from "3.IH"(3) [OF ns refl True sub] r
        have "set files = set (?fl @ sub) \<union> (\<Union>e \<in> set rest. contrib fs e)" by blast
        with s ns True show ?thesis by (auto simp: contrib_def)
      next
        case False
        with ns w have r: "walk_loop fs rest ?fl = Inr files"
          by (simp add: Let_def)
        from "3.IH"(4) [OF ns refl False] r
        have "set files = set ?fl \<union> (\<Union>e \<in> set rest. contrib fs e)" by blast
        with ns False show ?thesis by (auto simp: contrib_def)
      qed
    qed
  qed
qed

lemma walk_files:
  "walk fs p = Inr files \<Longrightarrow> set files = {p @ rel |rel. genuine_file fs p rel}"
  using walk_files_aux(1) by blast

lemma is_dir_iterdir:
  "is_dir fs e \<Longrightarrow> iterdir fs e = Inl err \<Longrightarrow> err = PermissionError"
  by (auto simp: is_dir_def iterdir_def split: option.splits node.splits if_splits)

lemma blocked_union:
  assumes "iterdir fs p = Inr els"
  shows "(\<exists>e \<in> set els. \<not> is_symlink fs e \<and> is_dir fs e \<and> (\<exists>rel. blocked fs e rel))
           \<longleftrightarrow> (\<exists>rel. blocked fs p rel)"
proof
  assume "\<exists>e \<in> set els. \<not> is_symlink fs e \<and> is_dir fs e \<and> (\<exists>rel. blocked fs e rel)"
  then obtain e rel where e: "e \<in> set els" and ns: "\<not> is_symlink fs e"
    and d: "is_dir fs e" and b: "blocked fs e rel" by blast
  from stat_element [OF assms e ns] obtain n c where
    en: "e = p @ [n]" and l: "lstat fs e = Some c" and s: "stat fs e = Some c" by blast
  from d s l en b assms have "blocked fs p (n # rel)"
    by (auto simp: is_dir_def split: node.splits)
  then show "\<exists>rel. blocked fs p rel" ..
next
  assume "\<exists>rel. blocked fs p rel"
  then obtain rel where b: "blocked fs p rel" ..
  with assms obtain n rel' where rel: "rel = n # rel'" by (cases rel) auto
  from b rel obtain r es where l: "lstat fs (p @ [n]) = Some (Dir r es)"
    and b': "blocked fs (p @ [n]) rel'"
    by (auto split: option.splits node.splits)
  from l assms have e: "p @ [n] \<in> set els" by (auto simp: element_iff)
  from l have "\<not> is_symlink fs (p @ [n])" by (simp add: is_symlink_def)
  moreover from lstat_stat [OF l] have "is_dir fs (p @ [n])" by (simp add: is_dir_def)
  ultimately show "\<exists>e \<in> set els. \<not> is_symlink fs e \<and> is_dir fs e \<and> (\<exists>rel. blocked fs e rel)"
    using e b' by blast
qed

lemma walk_fails_aux:
  "isl (walk fs p) \<longleftrightarrow> (\<exists>rel. blocked fs p rel)"
  "isl (walk_loop fs els acc) \<longleftrightarrow>
     (\<exists>e \<in> set els. \<not> is_symlink fs e \<and> is_dir fs e \<and> (\<exists>rel. blocked fs e rel))"
proof (induction fs p and fs els acc rule: walk_walk_loop.induct)
  case (1 fs dir_path)
  show ?case
  proof (cases "iterdir fs dir_path")
    case (Inl err)
    then have "blocked fs dir_path []" by simp
    then have "\<exists>rel. blocked fs dir_path rel" ..
    with Inl show ?thesis by simp
  next
    case (Inr els)
    from "1.IH" [OF Inr] blocked_union [OF Inr] Inr show ?thesis by simp
  qed
next
  case (2 fs file_list)
  then show ?case by simp
next
  case (3 fs element rest file_list)
  show ?case
  proof (cases "is_symlink fs element")
    case True
    with "3.IH"(1) show ?thesis by simp
  next
    case ns: False
    let ?fl = "if is_file fs element then file_list @ [element] else file_list"
    show ?thesis
    proof (cases "is_dir fs element")
      case d: True
      show ?thesis
      proof (cases "walk fs element")
        case (Inl err)
        with "3.IH"(2) [OF ns refl d] have "\<exists>rel. blocked fs element rel" by simp
        with ns d Inl show ?thesis by (auto simp: Let_def simp del: walk.simps)
      next
        case (Inr sub)
        with "3.IH"(2) [OF ns refl d] have "\<not> (\<exists>rel. blocked fs element rel)" by simp
        with "3.IH"(3) [OF ns refl d Inr] ns d Inr show ?thesis
          by (auto simp: Let_def simp del: walk.simps)
      qed
    next
      case False
      with "3.IH"(4) [OF ns refl False] ns show ?thesis by (auto simp: Let_def)
    qed
  qed
qed

lemma walk_error_aux:
  "(\<forall>err. walk fs p = Inl err \<longrightarrow>
      iterdir fs p = Inl err \<or> (\<not> isl (iterdir fs p) \<and> err = PermissionError))"
  "(\<forall>err. walk_loop fs els acc = Inl err \<longrightarrow> err = PermissionError)"
proof (induction fs p and fs els acc rule: walk_walk_loop.induct)
  case (1 fs dir_path)
  show ?case
  proof (cases "iterdir fs dir_path")
    case (Inl err)
    then show ?thesis by simp
  next
    case (Inr els)
    with "1.IH" [OF Inr] show ?thesis by simp
  qed
next
  case (2 fs file_list)
  then show ?case by simp
next
  case (3 fs element rest file_list)
  show ?case
  proof (cases "is_symlink fs element")
    case True
    with "3.IH"(1) show ?thesis by simp
  next
    case ns: False
    show ?thesis
    proof (cases "is_dir fs element")
      case d: True
      show ?thesis
      proof (cases "walk fs element")
        case (Inl err)
        with "3.IH"(2) [OF ns refl d] is_dir_iterdir [OF d] have "err = PermissionError"
          by blast
        with ns d Inl show ?thesis by (auto simp: Let_def simp del: walk.simps)
      next
        case (Inr sub)
        with "3.IH"(3) [OF ns refl d Inr] ns d show ?thesis
          by (auto simp: Let_def simp del: walk.simps)
      qed
    next
      case False
      with "3.IH"(4) [OF ns refl False] ns show ?thesis by (auto simp: Let_def)
    qed
  qed
qed

lemma walk_error:
  "walk fs p = Inl err \<Longrightarrow> iterdir fs p = Inr els \<Longrightarrow> err = PermissionError"
  using walk_error_aux(1) [of fs p] by auto

lemma genuine_file_lstat:
  "genuine_file fs p rel \<Longrightarrow> \<exists>r bs. lstat fs (p @ rel) = Some (File r bs)"
proof (induction fs p rel rule: genuine_file.induct)
  case (1 fs p)
  then show ?case by simp
next
  case (2 fs p n)
  then show ?case by (auto split: option.splits node.splits)
next
  case (3 fs p n m rel)
  from "3.prems" obtain r es where l: "lstat fs (p @ [n]) = Some (Dir r es)"
    and g: "genuine_file fs (p @ [n]) (m # rel)"
    by (auto split: option.splits node.splits)
  from "3.IH" [OF l refl g] show ?case by simp
qed

lemma is_file_not_dir: "is_file fs e \<Longrightarrow> \<not> is_dir fs e"
  by (auto simp: is_file_def is_dir_def split: option.splits node.splits)

section \<open>What a run prints\<close>

lemma mapE_Inr_all: "mapE f xs = Inr ys \<Longrightarrow> x \<in> set xs \<Longrightarrow> \<exists>y. f x = Inr y"
  by (induction xs arbitrary: ys) (auto split: sum.splits)

lemma script_three:
  "length argv = 3 \<Longrightarrow>
   script H fs argv out =
     (case walk fs (Path (argv ! 1)) of
        Inl e \<Rightarrow> (out, Inl e)
      | Inr files_a \<Rightarrow>
          (case walk fs (Path (argv ! 2)) of
             Inl e \<Rightarrow> (out, Inl e)
           | Inr files_b \<Rightarrow>
               (case get_file_hashes H fs files_a files_b [Path (argv ! 1), Path (argv ! 2)] of
                  Inl e \<Rightarrow> (out, Inl e)
                | Inr merged \<Rightarrow> differ merged out)))"
  by (simp add: script_def main_def argv_at_def Let_def del: walk.simps One_nat_def)

lemma differ_result:
  "(\<exists>e. differ merged out = (out, Inl e)) \<or>
   (\<exists>changes. differ merged out = (out @ [Pretty changes], Inr ()))"
  by (auto simp: differ_def pprint_def split: sum.splits)

lemma script_result:
  "(\<exists>e. script H fs argv out = (out, Inl e)) \<or>
   (\<exists>item. script H fs argv out = (out @ [item], Inr ()))"
proof (cases "length argv = 3")
  case True
  show ?thesis
    using differ_result
    by (simp add: script_three [OF True] split: sum.splits del: walk.simps) blast
next
  case False
  then show ?thesis by (simp add: script_def print_def)
qed

section \<open>The same tree listed in another order\<close>

lemma sim_map_of:
  assumes "sim (Dir r es) (Dir r' es')"
  shows "rel_option sim (map_of es n) (map_of es' n)"
proof (cases "n \<in> fst ` set es")
  case False
  moreover from assms have "fst ` set es = fst ` set es'" by (simp add: sim_def)
  ultimately show ?thesis by (simp add: map_of_eq_None_iff [THEN iffD2])
next
  case True
  moreover from assms have eq: "fst ` set es = fst ` set es'" by (simp add: sim_def)
  ultimately obtain c c' where c: "map_of es n = Some c" and c': "map_of es' n = Some c'"
    by (metis map_of_eq_None_iff not_None_eq)
  from c c' have "(n, c) \<in> set es" "(n, c') \<in> set es'" by (auto dest: map_of_SomeD)
  with assms have "sim c c'" by (fastforce simp: sim_def)
  with c c' show ?thesis by simp
qed

lemma sim_cases:
  assumes "sim c c'"
  obtains (File) r bs where "c = File r bs" "c' = File r bs"
  | (Dir) r es es' where "c = Dir r es" "c' = Dir r es'"
  | (Symlink) t where "c = Symlink t" "c' = Symlink t"
  | (Special) "c = Special" "c' = Special"
  using assms by (cases c; cases c') (auto simp: sim_def)

lemma sim_link_target: "sim c c' \<Longrightarrow> link_target c = link_target c'"
  by (erule sim_cases) simp_all

lemma sim_resolve:
  "sim root root' \<Longrightarrow> sim cur cur' \<Longrightarrow>
   rel_option sim (resolve fuel root cur p) (resolve fuel root' cur' p)"
proof (induction fuel root cur p arbitrary: cur' rule: resolve.induct)
  case (1 fuel root cur)
  then show ?case by simp
next
  case (2 fuel root cur c cs)
  from "2.prems"(2) show ?case
  proof (cases rule: sim_cases)
    case (Dir r es es')
    from "2.prems"(2) Dir have m: "rel_option sim (map_of es c) (map_of es' c)"
      by (simp add: sim_map_of)
    show ?thesis
    proof (cases "map_of es c")
      case None
      with m Dir show ?thesis by (cases "map_of es' c") simp_all
    next
      case (Some child)
      with m obtain child' where child': "map_of es' c = Some child'" and s: "sim child child'"
        by (cases "map_of es' c") simp_all
      from s have lt: "link_target child' = link_target child" by (simp add: sim_link_target)
      show ?thesis
      proof (cases "link_target child")
        case None
        from "2.IH"(1) [OF Dir(1) Some None "2.prems"(1) s] Dir Some child' lt None
        show ?thesis by simp
      next
        case t: (Some t)
        show ?thesis
        proof (cases fuel)
          case 0
          with Dir Some child' lt t show ?thesis by simp
        next
          case (Suc fuel')
          from "2.IH"(2) [OF Dir(1) Some t Suc "2.prems"(1) "2.prems"(1)]
            Dir Some child' lt t Suc
          show ?thesis by simp
        qed
      qed
    qed
  qed simp_all
qed

lemma sim_stat: "sim fs fs' \<Longrightarrow> rel_option sim (stat fs p) (stat fs' p)"
  by (simp add: stat_def sim_resolve)

lemma sim_lstat:
  assumes "sim fs fs'"
  shows "rel_option sim (lstat fs p) (lstat fs' p)"
proof (cases "p = []")
  case True
  with assms show ?thesis by (simp add: lstat_def)
next
  case False
  from sim_stat [OF assms, of "butlast p"] show ?thesis
  proof (cases rule: option.rel_cases)
    case None
    with False show ?thesis by (simp add: lstat_def)
  next
    case (Some d d')
    from Some(3) show ?thesis
    proof (cases rule: sim_cases)
      case (Dir r es es')
      with Some False sim_map_of [of r es r es' "last p"] show ?thesis
        by (simp add: lstat_def)
    qed (use Some False in \<open>simp_all add: lstat_def\<close>)
  qed
qed

lemma sim_obs:
  assumes "sim fs fs'"
  shows "is_symlink fs p = is_symlink fs' p" and "is_file fs p = is_file fs' p"
    and "is_dir fs p = is_dir fs' p" and "open_rb fs p = open_rb fs' p"
    and "isl (iterdir fs p) = isl (iterdir fs' p)"
    and "iterdir fs p = Inl e \<longleftrightarrow> iterdir fs' p = Inl e"
proof -
  note l = sim_lstat [OF assms, of p] and s = sim_stat [OF assms, of p]
  from l show "is_symlink fs p = is_symlink fs' p"
    by (cases rule: option.rel_cases) (auto simp: is_symlink_def elim: sim_cases)
  from s show "is_file fs p = is_file fs' p"
    by (cases rule: option.rel_cases) (auto simp: is_file_def elim: sim_cases)
  from s show "is_dir fs p = is_dir fs' p"
    by (cases rule: option.rel_cases) (auto simp: is_dir_def elim: sim_cases)
  from s show "open_rb fs p = open_rb fs' p"
    by (cases rule: option.rel_cases) (auto simp: open_rb_def elim: sim_cases)
  from s show "isl (iterdir fs p) = isl (iterdir fs' p)"
    by (cases rule: option.rel_cases) (auto simp: iterdir_def elim!: sim_cases)
  from s show "iterdir fs p = Inl e \<longleftrightarrow> iterdir fs' p = Inl e"
    by (cases rule: option.rel_cases) (auto simp: iterdir_def elim!: sim_cases)
qed

lemma sim_lstat_kind:
  assumes "sim fs fs'"
  shows "(\<exists>r bs. lstat fs p = Some (File r bs)) \<longleftrightarrow> (\<exists>r bs. lstat fs' p = Some (File r bs))"
    and "(\<exists>r es. lstat fs p = Some (Dir r es)) \<longleftrightarrow> (\<exists>r es. lstat fs' p = Some (Dir r es))"
  using sim_lstat [OF assms, of p]
  by (cases rule: option.rel_cases; auto elim: sim_cases)+

lemma genuine_file_kind:
  "genuine_file fs p (n # rel) \<longleftrightarrow>
     ((\<exists>r bs. lstat fs (p @ [n]) = Some (File r bs)) \<and> rel = [] \<or>
      (\<exists>r es. lstat fs (p @ [n]) = Some (Dir r es)) \<and> genuine_file fs (p @ [n]) rel)"
  by (auto simp: genuine_file_Cons split: option.splits node.splits)

lemma sim_genuine_file:
  "sim fs fs' \<Longrightarrow> genuine_file fs p rel = genuine_file fs' p rel"
proof (induction rel arbitrary: p)
  case Nil
  then show ?case by simp
next
  case (Cons n rel)
  from Cons.IH [OF Cons.prems, of "p @ [n]"] sim_lstat_kind [OF Cons.prems, of "p @ [n]"]
  show ?case by (simp only: genuine_file_kind)
qed

lemma blocked_kind:
  "blocked fs p (n # rel) \<longleftrightarrow>
     (\<not> isl (iterdir fs p) \<and> (\<exists>r es. lstat fs (p @ [n]) = Some (Dir r es)) \<and>
      blocked fs (p @ [n]) rel)"
  by (auto split: option.splits node.splits)

lemma sim_blocked:
  "sim fs fs' \<Longrightarrow> blocked fs p rel = blocked fs' p rel"
proof (induction rel arbitrary: p)
  case Nil
  then show ?case by (simp add: sim_obs(5))
next
  case (Cons n rel)
  from Cons.IH [OF Cons.prems, of "p @ [n]"] sim_lstat_kind(2) [OF Cons.prems, of "p @ [n]"]
    sim_obs(5) [OF Cons.prems, of p]
  show ?case by (simp only: blocked_kind)
qed

lemma sim_walk:
  assumes "sim fs fs'"
  shows "(\<exists>e. walk fs p = Inl e \<and> walk fs' p = Inl e) \<or>
         (\<exists>files files'. walk fs p = Inr files \<and> walk fs' p = Inr files' \<and> set files = set files')"
proof (cases "walk fs p")
  case (Inl e)
  then have "isl (walk fs p)" by simp
  then have "isl (walk fs' p)"
    by (simp add: walk_fails_aux(1) sim_blocked [OF assms] del: walk.simps)
  then obtain e' where e': "walk fs' p = Inl e'" by (cases "walk fs' p") simp_all
  have "e' = e"
  proof (cases "iterdir fs p")
    case l: (Inl x)
    with sim_obs(6) [OF assms, of p x] Inl e' show ?thesis by simp
  next
    case (Inr els)
    then have "\<not> isl (iterdir fs' p)" using sim_obs(5) [OF assms, of p] by simp
    then obtain els' where "iterdir fs' p = Inr els'" by (cases "iterdir fs' p") simp_all
    with walk_error [OF Inl Inr] walk_error [OF e'] show ?thesis by simp
  qed
  with Inl e' show ?thesis by simp
next
  case (Inr files)
  then have "\<not> isl (walk fs p)" by simp
  then have "\<not> isl (walk fs' p)"
    by (simp add: walk_fails_aux(1) sim_blocked [OF assms] del: walk.simps)
  then obtain files' where f': "walk fs' p = Inr files'" by (cases "walk fs' p") simp_all
  from walk_files [OF Inr] walk_files [OF f'] have "set files = set files'"
    by (simp add: sim_genuine_file [OF assms])
  with Inr f' show ?thesis by simp
qed

lemma well_formed_map_of:
  "well_formed (Dir r es) \<Longrightarrow> map_of es n = Some c \<Longrightarrow> CHR ''/'' \<notin> set n \<and> well_formed c"
  by (auto dest!: map_of_SomeD)

lemma well_formed_resolve:
  "well_formed root \<Longrightarrow> well_formed cur \<Longrightarrow> resolve fuel root cur p = Some d \<Longrightarrow> well_formed d"
proof (induction fuel root cur p rule: resolve.induct)
  case (1 fuel root cur)
  then show ?case by simp
next
  case (2 fuel root cur c cs)
  from "2.prems"(3) obtain r es child where cur: "cur = Dir r es"
    and child: "map_of es c = Some child"
    by (cases cur; cases "map_of (case cur of Dir r es \<Rightarrow> es | _ \<Rightarrow> []) c") simp_all
  from well_formed_map_of [OF "2.prems"(2) [unfolded cur] child]
  have wc: "well_formed child" by simp
  show ?case
  proof (cases "link_target child")
    case None
    with "2.prems"(3) cur child have "resolve fuel root child cs = Some d" by simp
    from "2.IH"(1) [OF cur child None "2.prems"(1) wc this] show ?thesis .
  next
    case (Some t)
    with "2.prems"(3) cur child obtain fuel' where fuel: "fuel = Suc fuel'"
      and "resolve fuel' root root (t @ cs) = Some d"
      by (cases fuel) simp_all
    from "2.IH"(2) [OF cur child Some fuel "2.prems"(1) "2.prems"(1) this(2)] show ?thesis .
  qed
qed

lemma genuine_file_names:
  "well_formed fs \<Longrightarrow> genuine_file fs p rel \<Longrightarrow> \<forall>n \<in> set rel. CHR ''/'' \<notin> set n"
proof (induction rel arbitrary: p)
  case Nil
  then show ?case by simp
next
  case (Cons n rel)
  from Cons.prems(2) obtain c where l: "lstat fs (p @ [n]) = Some c"
    by (auto simp: genuine_file_Cons split: option.splits)
  then obtain r es where p: "stat fs p = Some (Dir r es)" and c: "map_of es n = Some c"
    by (auto simp: lstat_snoc split: option.splits node.splits)
  from well_formed_resolve [OF Cons.prems(1) Cons.prems(1) p [unfolded stat_def]]
  have "well_formed (Dir r es)" .
  from well_formed_map_of [OF this c] have n: "CHR ''/'' \<notin> set n" by simp
  show ?case
  proof (cases "rel = []")
    case True
    with n show ?thesis by simp
  next
    case False
    with Cons.prems(2) have "genuine_file fs (p @ [n]) rel"
      by (auto simp: genuine_file_Cons split: option.splits node.splits)
    from Cons.IH [OF Cons.prems(1) this] n show ?thesis by simp
  qed
qed

lemma split_at_slash:
  "CHR ''/'' \<notin> set x \<Longrightarrow> CHR ''/'' \<notin> set y \<Longrightarrow>
   x @ CHR ''/'' # r1 = y @ CHR ''/'' # r2 \<Longrightarrow> x = y \<and> r1 = r2"
proof (induction x arbitrary: y)
  case Nil
  then show ?case by (cases y) auto
next
  case (Cons a x)
  then show ?case by (cases y) auto
qed

lemma join_parts_Cons:
  "rest \<noteq> [] \<Longrightarrow> join_parts (c # rest) = c @ CHR ''/'' # join_parts rest"
  by (cases rest) simp_all

lemma join_parts_inj:
  "\<forall>n \<in> set a. CHR ''/'' \<notin> set n \<Longrightarrow> \<forall>n \<in> set b. CHR ''/'' \<notin> set n \<Longrightarrow>
   a \<noteq> [] \<Longrightarrow> b \<noteq> [] \<Longrightarrow> join_parts a = join_parts b \<Longrightarrow> a = b"
proof (induction a arbitrary: b)
  case Nil
  then show ?case by simp
next
  case (Cons x a)
  from Cons.prems(4) obtain y b' where b: "b = y # b'" by (cases b) auto
  show ?case
  proof (cases "a = []")
    case True
    show ?thesis
    proof (cases "b' = []")
      case True
      with \<open>a = []\<close> b Cons.prems(5) show ?thesis by simp
    next
      case False
      with \<open>a = []\<close> b Cons.prems(5) have "x = y @ CHR ''/'' # join_parts b'"
        by (simp add: join_parts_Cons)
      with Cons.prems(1) show ?thesis by simp
    qed
  next
    case False
    show ?thesis
    proof (cases "b' = []")
      case True
      with False b Cons.prems(5) have "y = x @ CHR ''/'' # join_parts a"
        by (simp add: join_parts_Cons)
      with Cons.prems(2) b show ?thesis by simp
    next
      case b': False
      with False b Cons.prems(5)
      have "x @ CHR ''/'' # join_parts a = y @ CHR ''/'' # join_parts b'"
        by (simp add: join_parts_Cons)
      with Cons.prems(1,2) b have "x = y" and j: "join_parts a = join_parts b'"
        using split_at_slash [of x y "join_parts a" "join_parts b'"] by simp_all
      from Cons.IH [OF _ _ False b' j] Cons.prems(1,2) b have "a = b'" by simp
      with \<open>x = y\<close> b show ?thesis by simp
    qed
  qed
qed

lemma relative_to_append: "relative_to (root @ rel) root = Inr rel"
  by (induction root) simp_all

lemma functional_map_of:
  assumes "\<And>k v v'. (k, v) \<in> set zs \<Longrightarrow> (k, v') \<in> set zs \<Longrightarrow> v = v'"
  shows "map_of zs k = Some v \<longleftrightarrow> (k, v) \<in> set zs"
proof
  assume "map_of zs k = Some v"
  then show "(k, v) \<in> set zs" by (rule map_of_SomeD)
next
  assume m: "(k, v) \<in> set zs"
  then obtain v' where v': "map_of zs k = Some v'" by (metis weak_map_of_SomeI)
  then have "(k, v') \<in> set zs" by (rule map_of_SomeD)
  with m assms have "v = v'" by blast
  with v' show "map_of zs k = Some v" by simp
qed

lemma map_of_same_set:
  assumes "\<And>k v v'. (k, v) \<in> set zs \<Longrightarrow> (k, v') \<in> set zs \<Longrightarrow> v = v'"
    and "set zs = set zs'"
  shows "map_of zs = map_of zs'"
proof
  fix k
  have f': "\<And>k v v'. (k, v) \<in> set zs' \<Longrightarrow> (k, v') \<in> set zs' \<Longrightarrow> v = v'"
    using assms by blast
  show "map_of zs k = map_of zs' k"
  proof (cases "map_of zs k")
    case None
    then have "k \<notin> fst ` set zs" by (simp add: map_of_eq_None_iff)
    with assms(2) have "map_of zs' k = None" by (simp add: map_of_eq_None_iff)
    with None show ?thesis by simp
  next
    case (Some v)
    then have "(k, v) \<in> set zs'" using assms(2) by (auto dest: map_of_SomeD)
    with functional_map_of [of zs' k v, OF f'] Some show ?thesis by simp
  qed
qed

lemma hash_loop_Inl:
  "mapE (rel_name roots i) files = Inr ns \<Longrightarrow> set ns \<subseteq> fst ` set d \<Longrightarrow>
   hash_loop H fs roots i files d = Inl e \<Longrightarrow> \<exists>f \<in> set files. calc_md5 H fs f = Inl e"
proof (induction files arbitrary: d ns)
  case Nil
  then show ?case by simp
next
  case (Cons f rest)
  from Cons.prems(1) [unfolded mapE_Cons_Inr] obtain n ns' where n: "rel_name roots i f = Inr n"
    and ns': "mapE (rel_name roots i) rest = Inr ns'" and ns: "ns = n # ns'"
    by blast
  show ?case
  proof (cases "calc_md5 H fs f")
    case (Inl e')
    with Cons.prems(3) show ?thesis by simp
  next
    case (Inr c)
    from Cons.prems(2) ns obtain h where h: "map_of d n = Some h"
      by (cases "map_of d n") (auto simp: map_of_eq_None_iff)
    let ?d1 = "AList.update n (set_slot i c h) d"
    have "map fst ?d1 = map fst d"
      using h by (auto simp: update_keys dest: map_of_SomeD intro: rev_image_eqI)
    then have "fst ` set ?d1 = fst ` set d" by (metis set_map)
    with Cons.prems(2) ns have sub: "set ns' \<subseteq> fst ` set ?d1" by simp
    from Cons.prems(3) have "hash_loop H fs roots i rest ?d1 = Inl e"
      by (simp add: hash_loop_step [OF Inr n h] del: hash_loop.simps)
    from Cons.IH [OF ns' sub this] show ?thesis by auto
  qed
qed

lemma get_file_hashes_Inl:
  assumes "mapE (rel_name roots 0) fa = Inr na" and "mapE (rel_name roots 1) fb = Inr nb"
    and "get_file_hashes H fs fa fb roots = Inl e"
  shows "\<exists>f \<in> set fa \<union> set fb. calc_md5 H fs f = Inl e"
proof -
  let ?names = "sorted_list_of_set (set na \<union> set nb)"
  let ?d0 = "map (\<lambda>k. (k, (None, None) :: hashes)) ?names"
  have k0: "fst ` set ?d0 = set na \<union> set nb" by (simp add: image_image)
  show ?thesis
  proof (cases "hash_loop H fs roots 0 fa ?d0")
    case (Inl e')
    with assms have "e' = e" by (simp add: get_file_hashes_def)
    with hash_loop_Inl [OF assms(1) _ Inl] k0 show ?thesis by auto
  next
    case (Inr d1)
    from hash_loop_Inr_D [OF Inr] obtain da where da: "mapE (calc_md5 H fs) fa = Inr da"
      using assms(1) by auto
    have "hash_loop H fs roots 0 fa ?d0 = Inr (map (fill 0 (rev (zip na da))) ?d0)"
      by (rule hash_loop_closed [OF assms(1) da]) (simp_all add: comp_def image_image)
    with Inr have "d1 = map (fill 0 (rev (zip na da))) ?d0" by simp
    then have k1: "fst ` set d1 = set na \<union> set nb"
      by (simp add: image_image fill_def)
    from Inr assms have "hash_loop H fs roots 1 fb d1 = Inl e"
      by (simp add: get_file_hashes_def)
    from hash_loop_Inl [OF assms(2) _ this] k1 show ?thesis by auto
  qed
qed

lemma mapE_map: "(\<And>x. x \<in> set xs \<Longrightarrow> f x = Inr (g x)) \<Longrightarrow> mapE f xs = Inr (map g xs)"
  by (induction xs) simp_all

lemma map_of_rev_zip_same:
  assumes "inj_on nm (set xs)" and "set xs = set ys"
  shows "map_of (rev (zip (map nm xs) (map dg xs))) = map_of (rev (zip (map nm ys) (map dg ys)))"
proof (rule map_of_same_set)
  fix k v v'
  assume "(k, v) \<in> set (rev (zip (map nm xs) (map dg xs)))"
    and "(k, v') \<in> set (rev (zip (map nm xs) (map dg xs)))"
  then obtain x x' where "x \<in> set xs" "x' \<in> set xs" "nm x = k" "nm x' = k"
    "dg x = v" "dg x' = v'"
    by (auto simp: zip_map_map zip_same_conv_map)
  with assms(1) show "v = v'" by (auto dest: inj_onD)
next
  show "set (rev (zip (map nm xs) (map dg xs))) = set (rev (zip (map nm ys) (map dg ys)))"
    using assms(2) by (simp add: zip_map_map zip_same_conv_map)
qed

lemma get_file_hashes_order:
  assumes sets: "set fa = set fa'" "set fb = set fb'"
    and names: "\<And>f. f \<in> set fa \<Longrightarrow> rel_name roots 0 f = Inr (nm0 f)"
      "\<And>f. f \<in> set fb \<Longrightarrow> rel_name roots 1 f = Inr (nm1 f)"
    and inj: "inj_on nm0 (set fa)" "inj_on nm1 (set fb)"
    and same: "\<And>f. calc_md5 H fs' f = calc_md5 H fs f"
    and perr: "\<And>f e. f \<in> set fa \<union> set fb \<Longrightarrow> calc_md5 H fs f = Inl e \<Longrightarrow> e = PermissionError"
  shows "get_file_hashes H fs fa fb roots = get_file_hashes H fs' fa' fb' roots"
proof -
  have na: "mapE (rel_name roots 0) fa = Inr (map nm0 fa)"
    and na': "mapE (rel_name roots 0) fa' = Inr (map nm0 fa')"
    and nb: "mapE (rel_name roots 1) fb = Inr (map nm1 fb)"
    and nb': "mapE (rel_name roots 1) fb' = Inr (map nm1 fb')"
    by (rule mapE_map, simp add: names sets [symmetric] del: One_nat_def)+
  have same': "calc_md5 H fs' = calc_md5 H fs" using same by (rule ext)
  show ?thesis
  proof (cases "\<exists>f \<in> set fa \<union> set fb. isl (calc_md5 H fs f)")
    case True
    then obtain f where f: "f \<in> set fa \<union> set fb" "isl (calc_md5 H fs f)" by blast
    have fails: "get_file_hashes H fs0 xa xb roots = Inl PermissionError"
      if "calc_md5 H fs0 = calc_md5 H fs" "set xa = set fa" "set xb = set fb"
        "mapE (rel_name roots 0) xa = Inr ma" "mapE (rel_name roots 1) xb = Inr mb"
      for fs0 xa xb ma mb
    proof (cases "get_file_hashes H fs0 xa xb roots")
      case (Inl e)
      from get_file_hashes_Inl [OF that(4,5) Inl] that(1,2,3) perr have "e = PermissionError"
        by auto
      with Inl show ?thesis by simp
    next
      case (Inr merged)
      from get_file_hashes_Inr_D [OF Inr] obtain da db where
        "mapE (calc_md5 H fs0) xa = Inr da" "mapE (calc_md5 H fs0) xb = Inr db" by blast
      with mapE_Inr_all [of "calc_md5 H fs0" xa da f] mapE_Inr_all [of "calc_md5 H fs0" xb db f]
        f that(1,2,3)
      show ?thesis by auto
    qed
    from fails [OF refl refl refl na nb] fails [OF same' sets(1,2) [symmetric] na' nb']
    show ?thesis by simp
  next
    case False
    define dg where "dg f = (case calc_md5 H fs f of Inr d \<Rightarrow> d | Inl e \<Rightarrow> [])" for f
    from False have ok: "calc_md5 H fs f = Inr (dg f)" if "f \<in> set fa \<union> set fb" for f
    proof (cases "calc_md5 H fs f")
      case (Inl e)
      with False that have False by (auto dest!: bspec [of _ _ f])
      then show ?thesis ..
    next
      case (Inr d)
      then show ?thesis by (simp add: dg_def)
    qed
    have da: "mapE (calc_md5 H fs) fa = Inr (map dg fa)"
      and db: "mapE (calc_md5 H fs) fb = Inr (map dg fb)"
      and da': "mapE (calc_md5 H fs') fa' = Inr (map dg fa')"
      and db': "mapE (calc_md5 H fs') fb' = Inr (map dg fb')"
      unfolding same' by (rule mapE_map, simp add: ok sets [symmetric])+
    have "outer_join (map nm0 fa) (map dg fa) (map nm1 fb) (map dg fb) =
          outer_join (map nm0 fa') (map dg fa') (map nm1 fb') (map dg fb')"
      using sets map_of_rev_zip_same [OF inj(1) sets(1), of dg]
        map_of_rev_zip_same [OF inj(2) sets(2), of dg]
      by (simp add: outer_join_def)
    with get_file_hashes_closed [OF na nb da db] get_file_hashes_closed [OF na' nb' da' db']
    show ?thesis by simp
  qed
qed

lemma walked_names:
  assumes "well_formed fs" and "walk fs root = Inr files"
  shows "\<And>f. f \<in> set files \<Longrightarrow> relative_to f root = Inr (drop (length root) f)"
    and "inj_on (\<lambda>f. str_path (drop (length root) f)) (set files)"
    and "\<And>f e. f \<in> set files \<Longrightarrow> calc_md5 H fs f = Inl e \<Longrightarrow> e = PermissionError"
proof -
  note set = walk_files [OF assms(2)]
  show "relative_to f root = Inr (drop (length root) f)" if "f \<in> set files" for f
    using that set by (auto simp: relative_to_append)
  show "inj_on (\<lambda>f. str_path (drop (length root) f)) (set files)"
  proof (rule inj_onI)
    fix f g
    assume "f \<in> set files" "g \<in> set files"
      and eq: "str_path (drop (length root) f) = str_path (drop (length root) g)"
    with set obtain rel rel' where f: "f = root @ rel" "genuine_file fs root rel"
      and g: "g = root @ rel'" "genuine_file fs root rel'" by auto
    from f(2) g(2) have ne: "rel \<noteq> []" "rel' \<noteq> []" by auto
    from eq f(1) g(1) ne have "join_parts rel = join_parts rel'"
      by (simp add: str_path_def)
    from join_parts_inj [OF genuine_file_names [OF assms(1) f(2)]
        genuine_file_names [OF assms(1) g(2)] ne this] f(1) g(1)
    show "f = g" by simp
  qed
  show "e = PermissionError" if "f \<in> set files" "calc_md5 H fs f = Inl e" for f e
  proof -
    from that(1) set obtain rel where "f = root @ rel" "genuine_file fs root rel" by auto
    with genuine_file_lstat [of fs root rel] obtain r bs where l: "lstat fs f = Some (File r bs)"
      by auto
    from lstat_stat [OF l] have "stat fs f = Some (File r bs)" by simp
    with that(2) show ?thesis
      by (auto simp: calc_md5_def open_rb_def split: if_splits)
  qed
qed

section \<open>The runs on the concrete trees\<close>

lemmas fs_simps = iterdir_def is_symlink_def is_file_def is_dir_def lstat_def stat_def
  MAXSYMLINKS_def open_rb_def

lemma example_walk_old: "walk example_fs [''old''] = Inr example_old"
  by (simp add: fs_simps example_fs_def example_old_def)

lemma example_walk_new: "walk example_fs [''new''] = Inr example_new"
  by (simp add: fs_simps example_fs_def example_new_def)

lemma streaming_concat_hasher: "streaming concat_hasher"
  by (simp add: streaming_def concat_hasher_def)

lemma calc_md5_concat: "calc_md5 concat_hasher fs p = open_rb fs p"
proof -
  have "read_loop 8192 concat_hasher [] f = f" for f
    using streaming_concat_hasher by (simp add: read_loop_update concat_hasher_def)
  then show ?thesis
    by (simp add: calc_md5_def concat_hasher_def split: sum.splits)
qed

lemma example_get_file_hashes:
  "get_file_hashes concat_hasher example_fs example_old example_new [[''old''], [''new'']]
     = Inr example_merged"
proof -
  have "outer_join [''b.bin'', ''a.bin'', ''etc/gone''] [''2'', ''1'', ''5'']
          [''c.bin'', ''b.bin'', ''a.bin''] [''4'', ''3'', ''1''] = example_merged"
    by code_simp
  then show ?thesis
    by (subst get_file_hashes_closed
          [where na = "[''b.bin'', ''a.bin'', ''etc/gone'']" and da = "[''2'', ''1'', ''5'']"
             and nb = "[''c.bin'', ''b.bin'', ''a.bin'']" and db = "[''4'', ''3'', ''1'']"])
       (simp_all add: rel_name_def str_path_def calc_md5_concat fs_simps example_fs_def
          example_old_def example_new_def)
qed

lemma example_differ_loop:
  "differ_loop example_merged (map fst example_merged) [] = Inr example_changes"
  by (simp add: getitem_def example_merged_def example_changes_def)

lemma example_differ: "differ example_merged out = (out @ [Pretty example_changes], Inr ())"
proof -
  have "sort_key fst example_changes = example_changes"
    by code_simp
  then show ?thesis
    by (simp add: differ_def example_differ_loop pprint_def)
qed

lemma example_run:
  "script concat_hasher example_fs [''firmware_diff.py'', ''old'', ''new''] out =
     (out @ [Pretty example_changes], Inr ())"
proof -
  have "Path ''old'' = [''old'']" "Path ''new'' = [''new'']"
    by (simp_all add: Path_def)
  then show ?thesis
    by (simp add: script_def main_def argv_at_def example_walk_old example_walk_new
        example_get_file_hashes example_differ Let_def del: walk.simps)
qed

section \<open>The claims\<close>

text \<open>
  \<^bold>\<open>C1.\<close> For every relative path of the merged record that \<^verbatim>\<open>get_file_hashes\<close>
  builds, with its two digests, the differ records the path as Added exactly when the first
  digest is absent and the second present, as Removed exactly when the first is present and
  the second absent, as Modified exactly when both are present and differ, and records
  nothing for it exactly when both are present and equal. A record carries the two digests,
  and the records are what is printed.
\<close>

theorem differ_classification:
  assumes "get_file_hashes H fs file_paths_a file_paths_b roots = Inr merged"
    and "(name, (digest_a, digest_b)) \<in> set merged"
  shows "\<exists>changes. differ_loop merged (map fst merged) [] = Inr changes \<and>
     differ merged out = (out @ [Pretty changes], Inr ()) \<and>
     ((\<exists>c. map_of changes name = Some c \<and> change_type c = ''Added'')
        \<longleftrightarrow> digest_a = None \<and> digest_b \<noteq> None) \<and>
     ((\<exists>c. map_of changes name = Some c \<and> change_type c = ''Removed'')
        \<longleftrightarrow> digest_a \<noteq> None \<and> digest_b = None) \<and>
     ((\<exists>c. map_of changes name = Some c \<and> change_type c = ''Modified'')
        \<longleftrightarrow> digest_a \<noteq> None \<and> digest_b \<noteq> None \<and> digest_a \<noteq> digest_b) \<and>
     (map_of changes name = None
        \<longleftrightarrow> digest_a \<noteq> None \<and> digest_b \<noteq> None \<and> digest_a = digest_b) \<and>
     (\<forall>c. map_of changes name = Some c \<longrightarrow>
        first_hash c = digest_a \<and> second_hash c = digest_b)"
proof -
  from assms(1) obtain na nb where
    keys: "map fst merged = sorted_list_of_set (set na \<union> set nb)"
    by (rule merged_facts)
  from assms obtain na' nb' where
    one: "name \<in> set na' \<union> set nb'" "digest_a = None \<longleftrightarrow> name \<notin> set na'"
      "digest_b = None \<longleftrightarrow> name \<notin> set nb'"
    and look: "map_of merged name = Some (digest_a, digest_b)"
    by (rule merged_slots)
  let ?changes = "List.map_filter (entry_of merged) (map fst merged)"
  have d: "distinct (map fst merged)" and s: "sorted (map fst merged)"
    by (simp_all add: keys)
  from look have "name \<in> set (map fst merged)"
    by (metis map_of_eq_None_iff option.distinct(1) set_map)
  then have c: "map_of ?changes name = change_of (digest_a, digest_b)"
    using look by (simp add: map_of_changes)
  have loop: "differ_loop merged (map fst merged) [] = Inr ?changes"
    using d by (rule differ_loop_merged)
  have printed: "differ merged out = (out @ [Pretty ?changes], Inr ())"
    using d s by (rule differ_merged)
  from one consider
      (added) y where "digest_a = None" "digest_b = Some y"
    | (removed) x where "digest_a = Some x" "digest_b = None"
    | (modified) x y where "digest_a = Some x" "digest_b = Some y" "x \<noteq> y"
    | (unchanged) x where "digest_a = Some x" "digest_b = Some x"
    by (cases digest_a; cases digest_b) auto
  then have "((\<exists>c. map_of ?changes name = Some c \<and> change_type c = ''Added'')
        \<longleftrightarrow> digest_a = None \<and> digest_b \<noteq> None) \<and>
     ((\<exists>c. map_of ?changes name = Some c \<and> change_type c = ''Removed'')
        \<longleftrightarrow> digest_a \<noteq> None \<and> digest_b = None) \<and>
     ((\<exists>c. map_of ?changes name = Some c \<and> change_type c = ''Modified'')
        \<longleftrightarrow> digest_a \<noteq> None \<and> digest_b \<noteq> None \<and> digest_a \<noteq> digest_b) \<and>
     (map_of ?changes name = None
        \<longleftrightarrow> digest_a \<noteq> None \<and> digest_b \<noteq> None \<and> digest_a = digest_b) \<and>
     (\<forall>c. map_of ?changes name = Some c \<longrightarrow>
        first_hash c = digest_a \<and> second_hash c = digest_b)"
    unfolding c by cases (simp_all add: change_of_simps)
  with loop printed show ?thesis by (intro exI [of _ ?changes] conjI) simp_all
qed

theorem differ_classification_witness:
  "get_file_hashes concat_hasher example_fs example_old example_new [[''old''], [''new'']]
     = Inr example_merged \<and>
   (''b.bin'', (Some ''2'', Some ''3'')) \<in> set example_merged \<and>
   (''a.bin'', (Some ''1'', Some ''1'')) \<in> set example_merged \<and>
   (\<exists>changes. differ_loop example_merged (map fst example_merged) [] = Inr changes \<and>
      differ example_merged [] = ([Pretty changes], Inr ()) \<and>
      (\<exists>c. map_of changes ''b.bin'' = Some c \<and> change_type c = ''Modified'') \<and>
      map_of changes ''a.bin'' = None)"
proof -
  note h = example_get_file_hashes
  have b: "(''b.bin'', (Some ''2'', Some ''3'')) \<in> set example_merged"
    and a: "(''a.bin'', (Some ''1'', Some ''1'')) \<in> set example_merged"
    by (simp_all add: example_merged_def)
  from differ_classification [OF h b, of "[]"] differ_classification [OF h a, of "[]"]
  have "\<exists>changes. differ_loop example_merged (map fst example_merged) [] = Inr changes \<and>
      differ example_merged [] = ([Pretty changes], Inr ()) \<and>
      (\<exists>c. map_of changes ''b.bin'' = Some c \<and> change_type c = ''Modified'') \<and>
      map_of changes ''a.bin'' = None"
    by auto
  with h a b show ?thesis by blast
qed

text \<open>
  \<^bold>\<open>C2.\<close> Whenever \<^verbatim>\<open>get_file_hashes\<close> returns, the keys of the merged record are
  exactly the relative names of the files of the first list together with those of the
  second, and no key occurs twice. The differ visits each key once: the records it builds
  have distinct keys, all of them keys of the merged record (an unchanged file has none).
\<close>

theorem union_completeness:
  assumes "get_file_hashes H fs file_paths_a file_paths_b roots = Inr merged"
  shows "\<exists>names_a names_b changes.
     mapE (rel_name roots 0) file_paths_a = Inr names_a \<and>
     mapE (rel_name roots 1) file_paths_b = Inr names_b \<and>
     set (map fst merged) = set names_a \<union> set names_b \<and>
     distinct (map fst merged) \<and>
     differ_loop merged (map fst merged) [] = Inr changes \<and>
     distinct (map fst changes) \<and>
     set (map fst changes) \<subseteq> set (map fst merged)"
proof -
  from assms obtain na nb where
    names: "mapE (rel_name roots 0) file_paths_a = Inr na"
      "mapE (rel_name roots 1) file_paths_b = Inr nb"
    and keys: "map fst merged = sorted_list_of_set (set na \<union> set nb)"
    by (rule merged_facts)
  let ?changes = "List.map_filter (entry_of merged) (map fst merged)"
  have d: "distinct (map fst merged)" by (simp add: keys)
  then have "differ_loop merged (map fst merged) [] = Inr ?changes"
    by (rule differ_loop_merged)
  moreover have "set (map fst merged) = set na \<union> set nb"
    by (simp add: keys)
  moreover have "distinct (map fst ?changes)"
    using d by (simp add: keys_changes)
  moreover have "set (map fst ?changes) \<subseteq> set (map fst merged)"
    by (auto simp: keys_changes)
  ultimately show ?thesis using names d by blast
qed

theorem union_completeness_witness:
  "get_file_hashes concat_hasher example_fs example_old example_new [[''old''], [''new'']]
     = Inr example_merged \<and>
   (\<exists>names_a names_b changes.
     mapE (rel_name [[''old''], [''new'']] 0) example_old = Inr names_a \<and>
     mapE (rel_name [[''old''], [''new'']] 1) example_new = Inr names_b \<and>
     set (map fst example_merged) = set names_a \<union> set names_b \<and>
     distinct (map fst example_merged) \<and>
     differ_loop example_merged (map fst example_merged) [] = Inr changes \<and>
     distinct (map fst changes) \<and>
     set (map fst changes) \<subseteq> set (map fst example_merged))"
  using union_completeness [OF example_get_file_hashes] example_get_file_hashes by blast

text \<open>
  \<^bold>\<open>C3.\<close> The loop of the walker tests an element for being a symbolic link first, a
  regular file second and a directory third. An element that is a symbolic link is
  skipped whatever it points to; an element that is a device, socket or FIFO is skipped as
  well. So the files the walker returns are exactly the regular files reached from the
  root through directories only: none is a symbolic link or lies behind one, and no
  symbolic link or special file contributes a name to either digest map.
\<close>

theorem walker_skips:
  "(is_symlink fs element \<longrightarrow>
      walk_loop fs (element # rest) file_list = walk_loop fs rest file_list) \<and>
   (\<not> is_symlink fs element \<and> is_file fs element \<longrightarrow>
      walk_loop fs (element # rest) file_list = walk_loop fs rest (file_list @ [element])) \<and>
   (lstat fs element = Some Special \<longrightarrow>
      walk_loop fs (element # rest) file_list = walk_loop fs rest file_list) \<and>
   (\<forall>files. walk fs root = Inr files \<longrightarrow>
      set files = {root @ rel |rel. genuine_file fs root rel} \<and>
      (\<forall>f \<in> set files. \<not> is_symlink fs f \<and> (\<exists>r bs. lstat fs f = Some (File r bs))))"
proof (intro conjI impI allI)
  assume "is_symlink fs element"
  then show "walk_loop fs (element # rest) file_list = walk_loop fs rest file_list"
    by simp
next
  assume "\<not> is_symlink fs element \<and> is_file fs element"
  then show "walk_loop fs (element # rest) file_list = walk_loop fs rest (file_list @ [element])"
    using is_file_not_dir [of fs element] by (simp add: Let_def)
next
  assume l: "lstat fs element = Some Special"
  then have "stat fs element = Some Special" by (rule lstat_stat) simp
  with l show "walk_loop fs (element # rest) file_list = walk_loop fs rest file_list"
    by (simp add: is_symlink_def is_file_def is_dir_def)
next
  fix files
  assume w: "walk fs root = Inr files"
  then show "set files = {root @ rel |rel. genuine_file fs root rel}"
    by (rule walk_files)
  with genuine_file_lstat [of fs root]
  show "\<forall>f \<in> set files. \<not> is_symlink fs f \<and> (\<exists>r bs. lstat fs f = Some (File r bs))"
    by (fastforce simp: is_symlink_def)
qed

theorem walker_skips_witness:
  "is_symlink example_fs [''old'', ''etc'', ''loop''] \<and> is_dir example_fs [''old'', ''etc'', ''loop''] \<and>
   is_symlink example_fs [''old'', ''etc'', ''ln''] \<and> is_file example_fs [''old'', ''etc'', ''ln''] \<and>
   lstat example_fs [''old'', ''etc'', ''dev''] = Some Special \<and>
   walk_loop example_fs [[''old'', ''etc'', ''loop''], [''old'', ''etc'', ''ln''],
       [''old'', ''etc'', ''dev'']] [] = Inr [] \<and>
   walk example_fs [''old''] = Inr example_old \<and>
   set example_old = {[''old''] @ rel |rel. genuine_file example_fs [''old''] rel}"
proof -
  have a: "is_symlink example_fs [''old'', ''etc'', ''loop'']"
    and b: "is_symlink example_fs [''old'', ''etc'', ''ln'']"
    and c: "lstat example_fs [''old'', ''etc'', ''dev''] = Some Special"
    and d: "is_dir example_fs [''old'', ''etc'', ''loop'']"
    and e: "is_file example_fs [''old'', ''etc'', ''ln'']"
    by (simp_all add: fs_simps example_fs_def)
  from walker_skips [of example_fs "[''old'', ''etc'', ''loop'']"
      "[[''old'', ''etc'', ''ln''], [''old'', ''etc'', ''dev'']]" "[]" "[''old'']"] a
  have 1: "walk_loop example_fs [[''old'', ''etc'', ''loop''], [''old'', ''etc'', ''ln''],
       [''old'', ''etc'', ''dev'']] [] =
     walk_loop example_fs [[''old'', ''etc'', ''ln''], [''old'', ''etc'', ''dev'']] []"
    and 4: "set example_old = {[''old''] @ rel |rel. genuine_file example_fs [''old''] rel}"
    using example_walk_old by blast+
  from walker_skips [of example_fs "[''old'', ''etc'', ''ln'']" "[[''old'', ''etc'', ''dev'']]" "[]"] b
  have 2: "walk_loop example_fs [[''old'', ''etc'', ''ln''], [''old'', ''etc'', ''dev'']] [] =
     walk_loop example_fs [[''old'', ''etc'', ''dev'']] []"
    by blast
  from walker_skips [of example_fs "[''old'', ''etc'', ''dev'']" "[]" "[]"] c
  have 3: "walk_loop example_fs [[''old'', ''etc'', ''dev'']] [] = walk_loop example_fs [] []"
    by blast
  from 1 2 3 have "walk_loop example_fs [[''old'', ''etc'', ''loop''], [''old'', ''etc'', ''ln''],
       [''old'', ''etc'', ''dev'']] [] = Inr []"
    by simp
  with a b c d e 4 example_walk_old show ?thesis by blast
qed

text \<open>
  \<^bold>\<open>C4.\<close> In the merged record every name has at least one digest. A slot is
  \<open>None\<close> exactly when no file of that tree has the name, and a slot that is not
  \<open>None\<close> holds the digest \<^verbatim>\<open>calc_md5\<close> returned for a file of that tree with
  that name: the absence marker is never a digest.
\<close>

theorem merged_invariant:
  assumes "get_file_hashes H fs file_paths_a file_paths_b roots = Inr merged"
    and "(name, (digest_a, digest_b)) \<in> set merged"
  shows "(digest_a \<noteq> None \<or> digest_b \<noteq> None) \<and>
     (\<exists>names_a names_b.
        mapE (rel_name roots 0) file_paths_a = Inr names_a \<and>
        mapE (rel_name roots 1) file_paths_b = Inr names_b \<and>
        (digest_a = None \<longleftrightarrow> name \<notin> set names_a) \<and>
        (digest_b = None \<longleftrightarrow> name \<notin> set names_b)) \<and>
     (\<forall>x. digest_a = Some x \<longrightarrow> (\<exists>f \<in> set file_paths_a.
        rel_name roots 0 f = Inr name \<and> calc_md5 H fs f = Inr x)) \<and>
     (\<forall>y. digest_b = Some y \<longrightarrow> (\<exists>f \<in> set file_paths_b.
        rel_name roots 1 f = Inr name \<and> calc_md5 H fs f = Inr y))"
proof -
  from assms(1) obtain na nb da db where
    m: "mapE (rel_name roots 0) file_paths_a = Inr na"
      "mapE (rel_name roots 1) file_paths_b = Inr nb"
      "mapE (calc_md5 H fs) file_paths_a = Inr da" "mapE (calc_md5 H fs) file_paths_b = Inr db"
      "length da = length na" "length db = length nb"
      "merged = outer_join na da nb db"
    by (rule merged_facts)
  from assms(2) m(7) have mem: "name \<in> set na \<union> set nb"
    and a: "digest_a = map_of (rev (zip na da)) name"
    and b: "digest_b = map_of (rev (zip nb db)) name"
    by (simp_all add: outer_join_mem)
  have an: "digest_a = None \<longleftrightarrow> name \<notin> set na"
    using m(5) by (simp add: a map_of_rev_zip_None)
  have bn: "digest_b = None \<longleftrightarrow> name \<notin> set nb"
    using m(6) by (simp add: b map_of_rev_zip_None)
  have from_file: "\<exists>f \<in> set files. rel_name roots i f = Inr name \<and> calc_md5 H fs f = Inr x"
    if "mapE (rel_name roots i) files = Inr ns" "mapE (calc_md5 H fs) files = Inr ds"
      "map_of (rev (zip ns ds)) name = Some x" for i files ns ds x
  proof -
    from map_of_rev_zip_Some [OF that(3)] obtain j where
      j: "j < length ns" "ns ! j = name" "ds ! j = x" by blast
    from that(1) j(1) have lt: "j < length files" by (simp add: mapE_length)
    from mapE_nth [OF that(1) lt] mapE_nth [OF that(2) lt] j lt show ?thesis
      by (auto intro: bexI [of _ "files ! j"])
  qed
  have "\<forall>x. digest_a = Some x \<longrightarrow> (\<exists>f \<in> set file_paths_a.
        rel_name roots 0 f = Inr name \<and> calc_md5 H fs f = Inr x)"
    using from_file [OF m(1) m(3)] a by simp
  moreover have "\<forall>y. digest_b = Some y \<longrightarrow> (\<exists>f \<in> set file_paths_b.
        rel_name roots 1 f = Inr name \<and> calc_md5 H fs f = Inr y)"
    using from_file [OF m(2) m(4)] b by simp
  moreover have "digest_a \<noteq> None \<or> digest_b \<noteq> None"
    using mem an bn by auto
  ultimately show ?thesis using m(1,2) an bn by blast
qed

theorem merged_invariant_witness:
  "get_file_hashes concat_hasher example_fs example_old example_new [[''old''], [''new'']]
     = Inr example_merged \<and>
   (''c.bin'', (None, Some ''4'')) \<in> set example_merged \<and>
   (\<exists>f \<in> set example_new. rel_name [[''old''], [''new'']] 1 f = Inr ''c.bin'' \<and>
      calc_md5 concat_hasher example_fs f = Inr ''4'') \<and>
   (\<exists>names_a. mapE (rel_name [[''old''], [''new'']] 0) example_old = Inr names_a \<and>
      ''c.bin'' \<notin> set names_a)"
proof -
  have c: "(''c.bin'', (None, Some ''4'')) \<in> set example_merged"
    by (simp add: example_merged_def)
  from merged_invariant [OF example_get_file_hashes c] example_get_file_hashes c
  show ?thesis by auto
qed

text \<open>
  \<^bold>\<open>C5.\<close> For every pair of file lists on which \<^verbatim>\<open>get_file_hashes\<close> returns, the
  merged record and the change records built from it are in strictly increasing
  lexicographic order of the relative path string, and the change records are printed in
  that order.
\<close>

theorem output_order:
  assumes "get_file_hashes H fs file_paths_a file_paths_b roots = Inr merged"
  shows "\<exists>changes. differ_loop merged (map fst merged) [] = Inr changes \<and>
     sorted (map fst merged) \<and> distinct (map fst merged) \<and>
     sorted (map fst changes) \<and> distinct (map fst changes) \<and>
     differ merged out = (out @ [Pretty changes], Inr ())"
proof -
  from assms obtain na nb where
    keys: "map fst merged = sorted_list_of_set (set na \<union> set nb)"
    by (rule merged_facts)
  let ?changes = "List.map_filter (entry_of merged) (map fst merged)"
  have d: "distinct (map fst merged)" and s: "sorted (map fst merged)"
    by (simp_all add: keys)
  have "differ_loop merged (map fst merged) [] = Inr ?changes"
    using d by (rule differ_loop_merged)
  moreover have "differ merged out = (out @ [Pretty ?changes], Inr ())"
    using d s by (rule differ_merged)
  moreover have "sorted (map fst ?changes)"
    using s by (simp add: keys_changes sorted_wrt_filter)
  moreover have "distinct (map fst ?changes)"
    using d by (simp add: keys_changes)
  ultimately show ?thesis using d s by blast
qed

theorem output_order_witness:
  "get_file_hashes concat_hasher example_fs example_old example_new [[''old''], [''new'']]
     = Inr example_merged \<and>
   differ example_merged [] = ([Pretty example_changes], Inr ()) \<and>
   map fst example_changes = [''b.bin'', ''c.bin'', ''etc/gone''] \<and>
   sorted (map fst example_changes) \<and> distinct (map fst example_changes)"
proof -
  from output_order [OF example_get_file_hashes, of "[]"] example_differ [of "[]"]
  have "sorted (map fst example_changes) \<and> distinct (map fst example_changes)"
    by auto
  then show ?thesis
    using example_get_file_hashes example_differ [of "[]"]
    by (simp add: example_changes_def)
qed

text \<open>
  \<^bold>\<open>C6.\<close> With a streaming hash, the read loop with any positive chunk size leaves
  the hash object in the state a single \<^verbatim>\<open>update\<close> with the whole content would: the
  digest does not depend on the chunk size, and \<^verbatim>\<open>calc_md5\<close>, which reads 8192 bytes at a
  time, returns the digest of the whole content of the file it could open.
\<close>

theorem chunked_hash_is_whole_hash:
  assumes "streaming H" and "0 < n"
  shows "read_loop n H s content = h_update H s content \<and>
     h_hexdigest H (read_loop n H (h_new H) content) =
       h_hexdigest H (read_loop 8192 H (h_new H) content) \<and>
     calc_md5 H fs file_path =
       (case open_rb fs file_path of
          Inl e \<Rightarrow> Inl e
        | Inr whole \<Rightarrow> Inr (h_hexdigest H (h_update H (h_new H) whole)))"
  using assms by (simp add: read_loop_update calc_md5_def split: sum.splits)

theorem chunked_hash_is_whole_hash_witness:
  "streaming concat_hasher \<and> (0::nat) < 2 \<and>
   read_loop 2 concat_hasher ''x'' ''abcde'' = h_update concat_hasher ''x'' ''abcde'' \<and>
   read_loop 2 concat_hasher ''x'' ''abcde'' = ''xabcde'' \<and>
   calc_md5 concat_hasher example_fs [''new'', ''b.bin''] = Inr ''3''"
proof -
  have two: "(0::nat) < 2" by simp
  from chunked_hash_is_whole_hash [OF streaming_concat_hasher two,
      of "''x''" "''abcde''" example_fs "[''new'', ''b.bin'']"]
  show ?thesis
    using streaming_concat_hasher
    by (simp add: concat_hasher_def fs_simps example_fs_def)
qed

text \<open>
  \<^bold>\<open>C7.\<close> Two runs on the same pair of trees give the same result, whatever order the
  directories are listed in: if \<open>fs'\<close> is \<open>fs\<close> with the entries of any of its directories
  in another order, the script writes the same output and ends in the same way on both.
  The trees are well formed, as every filesystem is: no directory has two entries of one
  name and no name contains a slash.
\<close>

theorem deterministic_output:
  assumes "reordered fs fs'" and "well_formed fs" and "well_formed fs'"
  shows "script H fs argv out = script H fs' argv out"
proof (cases "length argv = 3")
  case False
  then show ?thesis by (simp add: script_def)
next
  case True
  from assms have sim: "sim fs fs'" by (simp add: sim_def)
  let ?ra = "Path (argv ! 1)" and ?rb = "Path (argv ! 2)"
  have same: "calc_md5 H fs' f = calc_md5 H fs f" for f
    by (simp add: calc_md5_def sim_obs(4) [OF sim])
  from sim_walk [OF sim, of ?ra] show ?thesis
  proof (elim disjE exE conjE)
    fix e
    assume "walk fs ?ra = Inl e" "walk fs' ?ra = Inl e"
    then show ?thesis by (simp add: script_three [OF True] del: walk.simps)
  next
    fix fa fa'
    assume a: "walk fs ?ra = Inr fa" and a': "walk fs' ?ra = Inr fa'" and sa: "set fa = set fa'"
    from sim_walk [OF sim, of ?rb] show ?thesis
    proof (elim disjE exE conjE)
      fix e
      assume "walk fs ?rb = Inl e" "walk fs' ?rb = Inl e"
      with a a' show ?thesis by (simp add: script_three [OF True] del: walk.simps)
    next
      fix fb fb'
      assume b: "walk fs ?rb = Inr fb" and b': "walk fs' ?rb = Inr fb'" and sb: "set fb = set fb'"
      note wa = walked_names [OF assms(2) a] and wb = walked_names [OF assms(2) b]
      have "get_file_hashes H fs fa fb [?ra, ?rb] = get_file_hashes H fs' fa' fb' [?ra, ?rb]"
      proof (rule get_file_hashes_order [OF sa sb _ _ wa(2) wb(2) same])
        show "rel_name [?ra, ?rb] 0 f = Inr (str_path (drop (length ?ra) f))" if "f \<in> set fa" for f
          using wa(1) [OF that] by (simp add: rel_name_def)
        show "rel_name [?ra, ?rb] 1 f = Inr (str_path (drop (length ?rb) f))" if "f \<in> set fb" for f
          using wb(1) [OF that] by (simp add: rel_name_def)
        show "e = PermissionError" if "f \<in> set fa \<union> set fb" "calc_md5 H fs f = Inl e" for f e
          using that wa(3) wb(3) by blast
      qed
      with a a' b b' show ?thesis by (simp add: script_three [OF True] del: walk.simps)
    qed
  qed
qed

theorem deterministic_output_witness:
  "reordered example_fs example_fs_reordered \<and>
   well_formed example_fs \<and> well_formed example_fs_reordered \<and>
   walk example_fs [''old''] =
     Inr [[''old'', ''b.bin''], [''old'', ''a.bin''], [''old'', ''etc'', ''gone'']] \<and>
   walk example_fs_reordered [''old''] =
     Inr [[''old'', ''etc'', ''gone''], [''old'', ''a.bin''], [''old'', ''b.bin'']] \<and>
   script concat_hasher example_fs_reordered [''firmware_diff.py'', ''old'', ''new''] [] =
     ([Pretty example_changes], Inr ())"
proof -
  have r: "reordered example_fs example_fs_reordered"
    by (auto simp: example_fs_def example_fs_reordered_def)
  have w: "well_formed example_fs" "well_formed example_fs_reordered"
    by (simp_all add: example_fs_def example_fs_reordered_def)
  have o: "walk example_fs_reordered [''old''] =
     Inr [[''old'', ''etc'', ''gone''], [''old'', ''a.bin''], [''old'', ''b.bin'']]"
    by (simp add: fs_simps example_fs_reordered_def)
  from deterministic_output [OF r w, of concat_hasher "[''firmware_diff.py'', ''old'', ''new'']" "[]"]
    example_run [of "[]"]
  have "script concat_hasher example_fs_reordered [''firmware_diff.py'', ''old'', ''new''] [] =
     ([Pretty example_changes], Inr ())"
    by simp
  with r w o example_walk_old show ?thesis
    by (simp add: example_old_def del: walk.simps)
qed

text \<open>
  \<^bold>\<open>C8.\<close> A run that ends with an error has written nothing to standard output. An
  error of either walk is the error of the run; an error of \<^verbatim>\<open>calc_md5\<close> on any file
  found by either walk makes the run end with an error. A run on two roots that ends
  normally has written exactly one item, the change set, after both walks and all hashing.
\<close>

theorem abort_before_output:
  "(\<forall>e. snd (script H fs argv out) = Inl e \<longrightarrow> fst (script H fs argv out) = out) \<and>
   (length argv = 3 \<longrightarrow>
      (\<forall>e. walk fs (Path (argv ! 1)) = Inl e \<longrightarrow> script H fs argv out = (out, Inl e)) \<and>
      (\<forall>files_a e. walk fs (Path (argv ! 1)) = Inr files_a \<longrightarrow>
         walk fs (Path (argv ! 2)) = Inl e \<longrightarrow> script H fs argv out = (out, Inl e)) \<and>
      (\<forall>files_a files_b f e. walk fs (Path (argv ! 1)) = Inr files_a \<longrightarrow>
         walk fs (Path (argv ! 2)) = Inr files_b \<longrightarrow> f \<in> set files_a \<union> set files_b \<longrightarrow>
         calc_md5 H fs f = Inl e \<longrightarrow> (\<exists>e'. script H fs argv out = (out, Inl e'))) \<and>
      (snd (script H fs argv out) = Inr () \<longrightarrow>
         (\<exists>changes. fst (script H fs argv out) = out @ [Pretty changes])))"
proof (intro conjI allI impI)
  fix e
  assume "snd (script H fs argv out) = Inl e"
  with script_result [of H fs argv out] show "fst (script H fs argv out) = out"
    by auto
next
  fix e
  assume "length argv = 3" "walk fs (Path (argv ! 1)) = Inl e"
  then show "script H fs argv out = (out, Inl e)"
    by (simp add: script_three del: walk.simps)
next
  fix files_a e
  assume "length argv = 3" "walk fs (Path (argv ! 1)) = Inr files_a"
    "walk fs (Path (argv ! 2)) = Inl e"
  then show "script H fs argv out = (out, Inl e)"
    by (simp add: script_three del: walk.simps)
next
  fix files_a files_b f e
  assume l: "length argv = 3" and a: "walk fs (Path (argv ! 1)) = Inr files_a"
    and b: "walk fs (Path (argv ! 2)) = Inr files_b"
    and f: "f \<in> set files_a \<union> set files_b" and c: "calc_md5 H fs f = Inl e"
  have "\<exists>e'. get_file_hashes H fs files_a files_b [Path (argv ! 1), Path (argv ! 2)] = Inl e'"
  proof (cases "get_file_hashes H fs files_a files_b [Path (argv ! 1), Path (argv ! 2)]")
    case (Inl e')
    then show ?thesis by blast
  next
    case (Inr merged)
    from get_file_hashes_Inr_D [OF Inr] obtain da db where
      "mapE (calc_md5 H fs) files_a = Inr da" "mapE (calc_md5 H fs) files_b = Inr db"
      by blast
    with f mapE_Inr_all [of "calc_md5 H fs" files_a da f]
      mapE_Inr_all [of "calc_md5 H fs" files_b db f] c
    show ?thesis by auto
  qed
  with l a b show "\<exists>e'. script H fs argv out = (out, Inl e')"
    by (auto simp: script_three simp del: walk.simps)
next
  assume l: "length argv = 3" and ok: "snd (script H fs argv out) = Inr ()"
  from ok obtain files_a files_b merged where
    "script H fs argv out = differ merged out"
    by (auto simp: script_three [OF l] split: sum.splits simp del: walk.simps)
  with ok differ_result [of merged out]
  show "\<exists>changes. fst (script H fs argv out) = out @ [Pretty changes]"
    by auto
qed

theorem abort_before_output_witness:
  "script concat_hasher example_fs [''firmware_diff.py'', ''old'', ''missing''] [] =
     ([], Inl FileNotFoundError) \<and>
   script concat_hasher locked_fs [''firmware_diff.py'', ''old'', ''new''] [] =
     ([], Inl PermissionError) \<and>
   walk locked_fs [''new''] = Inr [[''new'', ''a.bin'']] \<and>
   calc_md5 concat_hasher locked_fs [''new'', ''a.bin''] = Inl PermissionError \<and>
   (\<exists>e. script concat_hasher locked_fs [''firmware_diff.py'', ''new'', ''new''] [] = ([], Inl e)) \<and>
   fst (script concat_hasher example_fs [''firmware_diff.py'', ''old'', ''new''] []) =
     [Pretty example_changes]"
proof -
  have p: "Path ''old'' = [''old'']" "Path ''new'' = [''new'']" "Path ''missing'' = [''missing'']"
    by (simp_all add: Path_def)
  have three: "length [''firmware_diff.py'', x, y] = 3" for x y :: string by simp
  have nth: "[''firmware_diff.py'', x, y] ! 1 = x" "[''firmware_diff.py'', x, y] ! 2 = y"
    for x y :: string by simp_all
  have m: "walk example_fs [''missing''] = Inl FileNotFoundError"
    by (simp add: fs_simps example_fs_def)
  have k: "walk locked_fs [''old''] = Inl PermissionError"
    by (simp add: fs_simps locked_fs_def)
  have n: "walk locked_fs [''new''] = Inr [[''new'', ''a.bin'']]"
    by (simp add: fs_simps locked_fs_def)
  have c: "calc_md5 concat_hasher locked_fs [''new'', ''a.bin''] = Inl PermissionError"
    by (simp add: calc_md5_concat fs_simps locked_fs_def)
  note t = abort_before_output [of concat_hasher _ "[''firmware_diff.py'', _, _]" "[]",
      unfolded nth p]
  from t [of example_fs "''old''" "''missing''"] three example_walk_old m p
  have 1: "script concat_hasher example_fs [''firmware_diff.py'', ''old'', ''missing''] [] =
     ([], Inl FileNotFoundError)"
    by simp
  from t [of locked_fs "''old''" "''new''"] three k p
  have 2: "script concat_hasher locked_fs [''firmware_diff.py'', ''old'', ''new''] [] =
     ([], Inl PermissionError)"
    by simp
  from t [of locked_fs "''new''" "''new''"] three n c p
  have 3: "\<exists>e. script concat_hasher locked_fs [''firmware_diff.py'', ''new'', ''new''] [] = ([], Inl e)"
    by (auto simp del: walk.simps)
  from t [of example_fs "''old''" "''new''"] example_run [of "[]"]
  have 4: "fst (script concat_hasher example_fs [''firmware_diff.py'', ''old'', ''new''] []) =
     [Pretty example_changes]"
    by simp
  from 1 2 3 4 n c show ?thesis by blast
qed

text \<open>
  \<^bold>\<open>C9.\<close> With an argument vector of any length other than three (the program name and
  two roots) the script appends the usage line to standard output and ends normally. The
  result is the same for every filesystem and every hash: nothing is walked or hashed.
\<close>

theorem usage_only:
  assumes "length argv \<noteq> 3"
  shows "script H fs argv out = (out @ [Text USAGE], Inr ())"
  using assms by (simp add: script_def print_def)

theorem usage_only_witness:
  "length [''firmware_diff.py'', ''old''] \<noteq> 3 \<and>
   script concat_hasher example_fs [''firmware_diff.py'', ''old''] [] = ([Text USAGE], Inr ()) \<and>
   script concat_hasher (File False []) [''firmware_diff.py'', ''old''] [] = ([Text USAGE], Inr ())"
proof -
  have l: "length [''firmware_diff.py'', ''old''] \<noteq> 3" by simp
  from usage_only [OF l, of concat_hasher example_fs "[]"]
    usage_only [OF l, of concat_hasher "File False []" "[]"] l
  show ?thesis by simp
qed

text \<open>
  \<^bold>\<open>C10.\<close> The walker terminates on every tree and from every directory: every chain
  of recursive calls starting at \<open>walk fs dir_path\<close> is finite (\<open>walk_walk_loop_dom\<close> is
  the accessible part of the call relation of \<open>walk\<close> and its loop). The reason is the one
  the claim gives: a recursive call is made only for an element that is not a symbolic
  link and is a directory, such an element is a directory entry of the tree itself, and
  the node it names is strictly smaller than the directory being listed.
\<close>

theorem walk_terminates:
  "walk_walk_loop_dom (Inl (fs, dir_path)) \<and>
   (\<forall>elements e. iterdir fs dir_path = Inr elements \<longrightarrow> e \<in> set elements \<longrightarrow>
      \<not> is_symlink fs e \<longrightarrow> is_dir fs e \<longrightarrow>
        (\<exists>r es. lstat fs e = Some (Dir r es)) \<and> node_size fs e < node_size fs dir_path)"
proof (intro conjI allI impI)
  show "walk_walk_loop_dom (Inl (fs, dir_path))" by (rule walk_all_dom)
next
  fix elements e
  assume it: "iterdir fs dir_path = Inr elements" and e: "e \<in> set elements"
    and ns: "\<not> is_symlink fs e" and d: "is_dir fs e"
  from stat_element [OF it e ns] obtain c where "lstat fs e = Some c" "stat fs e = Some c"
    by blast
  with d show "\<exists>r es. lstat fs e = Some (Dir r es)"
    by (auto simp: is_dir_def split: node.splits)
  from element_smaller [OF it e] ns show "node_size fs e < node_size fs dir_path"
    by (simp add: walk_weight_def)
qed

theorem walk_terminates_witness:
  "is_symlink example_fs [''old'', ''etc'', ''loop''] \<and>
   stat example_fs [''old'', ''etc'', ''loop'', ''etc'', ''loop''] = stat example_fs [''old''] \<and>
   walk_walk_loop_dom (Inl (example_fs, [''old''])) \<and>
   walk example_fs [''old''] = Inr example_old \<and>
   iterdir example_fs [''old''] = Inr [[''old'', ''b.bin''], [''old'', ''a.bin''], [''old'', ''etc'']] \<and>
   \<not> is_symlink example_fs [''old'', ''etc''] \<and> is_dir example_fs [''old'', ''etc''] \<and>
   node_size example_fs [''old'', ''etc''] < node_size example_fs [''old'']"
proof -
  have it: "iterdir example_fs [''old''] =
      Inr [[''old'', ''b.bin''], [''old'', ''a.bin''], [''old'', ''etc'']]"
    and ns: "\<not> is_symlink example_fs [''old'', ''etc'']"
    and d: "is_dir example_fs [''old'', ''etc'']"
    and l: "is_symlink example_fs [''old'', ''etc'', ''loop'']"
    and c: "stat example_fs [''old'', ''etc'', ''loop'', ''etc'', ''loop''] = stat example_fs [''old'']"
    by (simp_all add: fs_simps example_fs_def)
  from walk_terminates [of example_fs "[''old'']"] it ns d
  have "walk_walk_loop_dom (Inl (example_fs, [''old'']))"
    and "node_size example_fs [''old'', ''etc''] < node_size example_fs [''old'']"
    by simp_all
  with it ns d l c example_walk_old show ?thesis by blast
qed

end
